theory Spec2Isabelle
  imports Main "HOL-Library.Word"
begin

section \<open>The scheduler: data model (sched/sched.go and the packages it uses)\<close>

text \<open>
  Go's \<open>int\<close> is a 64-bit two's complement integer on the platforms the engine runs on:
  addition and subtraction wrap, and the comparisons are the signed ones of the word
  library.
  The in-degree table, the fail counters and \<open>config.MaxRetry\<close> are such integers.
\<close>

type_synonym goint = "64 word"

text \<open>
  A \<open>*dag.Job\<close> is a reference into a store of job objects: the DAG's \<open>Jobs\<close> map and the
  run queue hold references, and the workers write \<open>job.Status\<close> through them.
\<close>

type_synonym jobref = nat

datatype JobType = DummyJob | ScriptJob | HadoopJob | HiveJob | OdpsJob

datatype JobStatus = NotStarted | Started | Finished | Failed

text \<open>The fields of \<open>dag.Job\<close> that the scheduler reads or writes.\<close>

record Job =
  Name :: string
  Type :: JobType
  Post :: "string list"
  Status :: JobStatus

record Relation =
  NonStrict :: bool

text \<open>
  \<open>status.StatusTracker\<close>: the persistent status store and the in-memory fail counters.
\<close>

record StatusTracker =
  Statuses :: "string \<rightharpoonup> JobStatus"
  Fails :: "string \<rightharpoonup> goint"

text \<open>
  The builtins of the DAG. Modelled from the spec: \<open>ToJson()\<close> is a snapshot of the
  tracker, so the job report is kept as the tracker value that was serialised.
\<close>

record Builtins =
  bizdate :: string
  jobReport :: "StatusTracker option"

record DAG =
  Jobs :: "string \<rightharpoonup> jobref"
  Relations :: "string \<rightharpoonup> (string \<rightharpoonup> Relation)"
  InDegrees :: "string \<rightharpoonup> goint"
  Builtins :: Builtins

text \<open>
  \<open>Sched\<close>: of the executor registry \<open>map[dag.JobType]exec.Exec\<close> only the key set
  matters, the executors themselves are opaque.
\<close>

record Sched =
  exec :: "JobType set"
  tracker :: StatusTracker

record config =
  MaxRetry :: goint
  Bizdate :: string

text \<open>
  What the scheduler does to the outside world and what it prints, as far as the
  specification speaks about it: tracker calls, executor runs and the two skip messages.
\<close>

datatype event =
    CallGetStatus string
  | CallSetStatus string JobStatus
  | CallExecRun string
  | InfoAlreadyFinished string
  | WarnAlreadyStarted string

record state =
  heap :: "jobref \<Rightarrow> Job"
  dag :: DAG
  sched :: Sched
  events :: "event list"

datatype error = NoValidExecutor JobType | SomeJobFailed

datatype panic = PanicNoCorrespondingJob | PanicError error | PanicGetStatus

text \<open>
  Everything the code leaves to its environment: the order in which \<open>range\<close> walks a
  map (Go randomises it on every loop), and the outcomes of \<open>d.ResolveJob\<close>,
  \<open>tracker.GetStatus\<close> and \<open>jexec.Run\<close>, which live in packages outside this
  repository's sources. The first argument is the number of the wave.
\<close>

record env =
  rangeInDegrees :: "nat \<Rightarrow> string list"
  rangeJobs :: "string list"
  ResolveJob_fails :: "nat \<Rightarrow> jobref \<Rightarrow> bool"
  GetStatus_fails :: "nat \<Rightarrow> jobref \<Rightarrow> bool"
  Run_fails :: "nat \<Rightarrow> jobref \<Rightarrow> bool"

subsection \<open>Map reads and writes\<close>

text \<open>Reading a Go map at an absent key gives the zero value.\<close>

definition fails_get :: "state \<Rightarrow> string \<Rightarrow> goint" where
  "fails_get s name = (case Fails (tracker (sched s)) name of None \<Rightarrow> 0 | Some n \<Rightarrow> n)"

definition indegree_get :: "state \<Rightarrow> string \<Rightarrow> goint" where
  "indegree_get s name = (case InDegrees (dag s) name of None \<Rightarrow> 0 | Some n \<Rightarrow> n)"

definition relation_get :: "state \<Rightarrow> string \<Rightarrow> string \<Rightarrow> Relation option" where
  "relation_get s name post =
     (case Relations (dag s) name of None \<Rightarrow> None | Some m \<Rightarrow> m post)"

text \<open>The entries \<open>range m\<close> yields when it visits the keys in the order \<open>ks\<close>.\<close>

fun range_entries :: "('k \<rightharpoonup> 'v) \<Rightarrow> 'k list \<Rightarrow> ('k \<times> 'v) list" where
  "range_entries m [] = []"
| "range_entries m (k # ks) =
     (case m k of
        None \<Rightarrow> range_entries m ks
      | Some v \<Rightarrow> (k, v) # range_entries m ks)"

definition set_Fails :: "(string \<rightharpoonup> goint) \<Rightarrow> state \<Rightarrow> state" where
  "set_Fails f s = s\<lparr>sched := (sched s)\<lparr>tracker := (tracker (sched s))\<lparr>Fails := f\<rparr>\<rparr>\<rparr>"

definition set_InDegrees :: "(string \<rightharpoonup> goint) \<Rightarrow> state \<Rightarrow> state" where
  "set_InDegrees f s = s\<lparr>dag := (dag s)\<lparr>InDegrees := f\<rparr>\<rparr>"

definition set_Status :: "jobref \<Rightarrow> JobStatus \<Rightarrow> state \<Rightarrow> state" where
  "set_Status job v s = s\<lparr>heap := (heap s)(job := (heap s job)\<lparr>Status := v\<rparr>)\<rparr>"

definition emit :: "event \<Rightarrow> state \<Rightarrow> state" where
  "emit e s = s\<lparr>events := events s @ [e]\<rparr>"

subsection \<open>The tracker and the builtins\<close>

text \<open>
  Modelled from the spec: \<open>GetStatus(job)\<close> returns the persisted status, or
  \<open>NotStarted\<close> if none; \<open>SetStatus(job)\<close> writes \<open>job.Status\<close> to the persistent store
  under the job's name. The package \<open>status\<close> is not among the sources.
\<close>

definition GetStatus :: "StatusTracker \<Rightarrow> Job \<Rightarrow> JobStatus" where
  "GetStatus t job = (case Statuses t (Name job) of None \<Rightarrow> NotStarted | Some st \<Rightarrow> st)"

definition SetStatus :: "StatusTracker \<Rightarrow> Job \<Rightarrow> StatusTracker" where
  "SetStatus t job = t\<lparr>Statuses := (Statuses t)(Name job \<mapsto> Status job)\<rparr>"

definition tracker_SetStatus :: "jobref \<Rightarrow> state \<Rightarrow> state" where
  "tracker_SetStatus job s =
     emit (CallSetStatus (Name (heap s job)) (Status (heap s job)))
       (s\<lparr>sched := (sched s)\<lparr>tracker := SetStatus (tracker (sched s)) (heap s job)\<rparr>\<rparr>)"

definition SetBizdate :: "string \<Rightarrow> state \<Rightarrow> state" where
  "SetBizdate b s = s\<lparr>dag := (dag s)\<lparr>Builtins := (Builtins (dag s))\<lparr>bizdate := b\<rparr>\<rparr>\<rparr>"

definition SetJobReport :: "state \<Rightarrow> state" where
  "SetJobReport s =
     s\<lparr>dag := (dag s)\<lparr>Builtins := (Builtins (dag s))\<lparr>jobReport := Some (tracker (sched s))\<rparr>\<rparr>\<rparr>"

text \<open>
  Modelled from the spec: \<open>Executor.Run(job)\<close> returns nil on success, and the job is
  then \<open>Finished\<close> (\<open>Started \<rightarrow> Finished: executor returned nil\<close>); on an error the
  scheduler itself sets \<open>Failed\<close>. The executors are not among the sources. The result
  is the error flag and the new state.
\<close>

definition Exec_Run :: "env \<Rightarrow> nat \<Rightarrow> jobref \<Rightarrow> state \<Rightarrow> bool \<times> state" where
  "Exec_Run en w job s =
     (let s1 = emit (CallExecRun (Name (heap s job))) s
      in if Run_fails en w job then (True, s1) else (False, set_Status job Finished s1))"

subsection \<open>genRunQueue\<close>

fun genRunQueue_loop ::
  "config \<Rightarrow> state \<Rightarrow> (string \<times> goint) list \<Rightarrow> jobref list \<Rightarrow> panic + jobref list" where
  "genRunQueue_loop cfg s [] queue = Inr queue"
| "genRunQueue_loop cfg s ((name, ind) # rest) queue =
     (case Jobs (dag s) name of
        None \<Rightarrow> Inl PanicNoCorrespondingJob
      | Some job \<Rightarrow>
          genRunQueue_loop cfg s rest
            (if ind = 0 \<and> Status (heap s job) \<noteq> Finished \<and>
                Status (heap s job) \<noteq> Started \<and>
                fails_get s (Name (heap s job)) <s MaxRetry cfg
             then queue @ [job] else queue))"

text \<open>\<open>ks\<close> is the order in which \<open>range d.InDegrees\<close> visits the keys.\<close>

definition genRunQueue :: "config \<Rightarrow> state \<Rightarrow> string list \<Rightarrow> panic + jobref list" where
  "genRunQueue cfg s ks = genRunQueue_loop cfg s (range_entries (InDegrees (dag s)) ks) []"

subsection \<open>runQueue\<close>

definition getExec :: "Sched \<Rightarrow> Job \<Rightarrow> error + JobType" where
  "getExec this job =
     (if Type job \<notin> exec this then Inl (NoValidExecutor (Type job)) else Inr (Type job))"

text \<open>The body of the goroutine that \<open>runQueue\<close> starts for one job of wave \<open>w\<close>.\<close>

definition runJob :: "config \<Rightarrow> env \<Rightarrow> nat \<Rightarrow> jobref \<Rightarrow> state \<Rightarrow> panic + state" where
  "runJob cfg en w job s0 =
     (let s = SetBizdate (Bizdate cfg) s0 in
      if ResolveJob_fails en w job then
        Inr (SetJobReport (tracker_SetStatus job (set_Status job Failed s)))
      else if Type (heap s job) = DummyJob then
        Inr (set_Status job Finished s)
      else
        (case getExec (sched s) (heap s job) of
           Inl err \<Rightarrow> Inl (PanicError err)
         | Inr jexec \<Rightarrow>
             if GetStatus_fails en w job then Inl PanicGetStatus
             else
               (let s1 = set_Status job (GetStatus (tracker (sched s)) (heap s job))
                           (emit (CallGetStatus (Name (heap s job))) s)
                in case Status (heap s1 job) of
                     Finished \<Rightarrow> Inr (emit (InfoAlreadyFinished (Name (heap s1 job))) s1)
                   | Started \<Rightarrow> Inr (emit (WarnAlreadyStarted (Name (heap s1 job))) s1)
                   | _ \<Rightarrow>
                       (let s2 = SetJobReport (tracker_SetStatus job (set_Status job Started s1));
                            (err, s3) = Exec_Run en w job s2;
                            s4 = (if err then set_Status job Failed s3 else s3)
                        in Inr (SetJobReport (tracker_SetStatus job s4))))))"

text \<open>
  The workers of a wave, one after the other in queue order. Every worker writes only
  its own job object and the store entry under its own job's name.
\<close>

fun runQueue_workers ::
  "config \<Rightarrow> env \<Rightarrow> nat \<Rightarrow> jobref list \<Rightarrow> state \<Rightarrow> panic + state" where
  "runQueue_workers cfg en w [] s = Inr s"
| "runQueue_workers cfg en w (job # rest) s =
     (case runJob cfg en w job s of
        Inl p \<Rightarrow> Inl p
      | Inr s' \<Rightarrow> runQueue_workers cfg en w rest s')"

text \<open>After \<open>wg.Wait()\<close> the function returns nil.\<close>

definition runQueue ::
  "config \<Rightarrow> env \<Rightarrow> nat \<Rightarrow> jobref list \<Rightarrow> state \<Rightarrow> panic + (error option \<times> state)" where
  "runQueue cfg en w queue s =
     (case runQueue_workers cfg en w queue s of
        Inl p \<Rightarrow> Inl p
      | Inr s' \<Rightarrow> Inr (None, s'))"

subsection \<open>updateFailCount and updateDependences\<close>

definition updateFailCount :: "jobref \<Rightarrow> state \<Rightarrow> state" where
  "updateFailCount job s =
     (let name = Name (heap s job); f = Fails (tracker (sched s)) in
      case Status (heap s job) of
        Failed \<Rightarrow>
          (case f name of
             None \<Rightarrow> set_Fails (f(name \<mapsto> 1)) s
           | Some n \<Rightarrow> set_Fails (f(name \<mapsto> n + 1)) s)
      | Finished \<Rightarrow>
          (case f name of
             Some n \<Rightarrow> set_Fails (f(name := None)) s
           | None \<Rightarrow> s)
      | _ \<Rightarrow> s)"

text \<open>One pass of the loop over \<open>job.Post\<close>.\<close>

definition updateDependences_body :: "config \<Rightarrow> jobref \<Rightarrow> string \<Rightarrow> state \<Rightarrow> state" where
  "updateDependences_body cfg job post s =
     (let ind = indegree_get s post in
      if ind = 0 then s
      else if Status (heap s job) = Finished then
        set_InDegrees ((InDegrees (dag s))(post \<mapsto> ind - 1)) s
      else
        (case relation_get s (Name (heap s job)) post of
           None \<Rightarrow> s
         | Some relation \<Rightarrow>
             if NonStrict relation \<and> Status (heap s job) = Failed \<and>
                MaxRetry cfg \<le>s fails_get s (Name (heap s job))
             then set_InDegrees ((InDegrees (dag s))(post \<mapsto> ind - 1)) s
             else s))"

fun updateDependences_loop :: "config \<Rightarrow> jobref \<Rightarrow> string list \<Rightarrow> state \<Rightarrow> state" where
  "updateDependences_loop cfg job [] s = s"
| "updateDependences_loop cfg job (post # rest) s =
     updateDependences_loop cfg job rest (updateDependences_body cfg job post s)"

definition updateDependences :: "config \<Rightarrow> jobref \<Rightarrow> state \<Rightarrow> state" where
  "updateDependences cfg job s = updateDependences_loop cfg job (Post (heap s job)) s"

text \<open>
  The decrement rule in the words of the specification: the predecessor \<open>u\<close> is
  Finished, or it is Failed, its fail count has reached MaxRetry and the edge to \<open>v\<close>
  is non-strict.
\<close>

definition decrement_rule :: "config \<Rightarrow> state \<Rightarrow> jobref \<Rightarrow> string \<Rightarrow> bool" where
  "decrement_rule cfg s u v \<longleftrightarrow>
     Status (heap s u) = Finished \<or>
     (Status (heap s u) = Failed \<and> MaxRetry cfg \<le>s fails_get s (Name (heap s u)) \<and>
      (case relation_get s (Name (heap s u)) v of None \<Rightarrow> False | Some r \<Rightarrow> NonStrict r))"

subsection \<open>checkDAG and Run\<close>

fun checkDAG_loop :: "state \<Rightarrow> (string \<times> jobref) list \<Rightarrow> error option" where
  "checkDAG_loop s [] = None"
| "checkDAG_loop s ((name, job) # rest) =
     (if Type (heap s job) \<notin> exec (sched s) then Some (NoValidExecutor (Type (heap s job)))
      else checkDAG_loop s rest)"

text \<open>\<open>ks\<close> is the order in which \<open>range d.Jobs\<close> visits the keys.\<close>

definition checkDAG :: "state \<Rightarrow> string list \<Rightarrow> error option" where
  "checkDAG s ks = checkDAG_loop s (range_entries (Jobs (dag s)) ks)"

text \<open>The loop over the queue after a wave: fail counts, then dependences, job by job.\<close>

fun Run_updates :: "config \<Rightarrow> jobref list \<Rightarrow> state \<Rightarrow> state" where
  "Run_updates cfg [] s = s"
| "Run_updates cfg (job # rest) s =
     Run_updates cfg rest (updateDependences cfg job (updateFailCount job s))"

text \<open>
  The wave loop of \<open>Run\<close>, with a bound on the number of times the loop condition is
  tested: \<open>None\<close> when the bound is used up before the loop ends. \<open>w\<close> counts the waves.
  A result \<open>Inl\<close> is a panic, \<open>Inr (Some err, s)\<close> the error \<open>err\<close> of \<open>runQueue\<close>, on
  which \<open>Run\<close> leaves the loop, \<open>Inr (None, s)\<close> the end of the loop in state \<open>s\<close>.
\<close>

fun Run_loop ::
  "nat \<Rightarrow> config \<Rightarrow> env \<Rightarrow> nat \<Rightarrow> jobref list \<Rightarrow> state \<Rightarrow>
     (panic + error option \<times> state) option" where
  "Run_loop 0 cfg en w queue s = None"
| "Run_loop (Suc fuel) cfg en w queue s =
     (if length queue \<noteq> 0 then
        (case runQueue cfg en w queue s of
           Inl p \<Rightarrow> Some (Inl p)
         | Inr (Some err, s1) \<Rightarrow> Some (Inr (Some err, s1))
         | Inr (None, s1) \<Rightarrow>
             (let s2 = Run_updates cfg queue s1 in
              case genRunQueue cfg s2 (rangeInDegrees en (Suc w)) of
                Inl p \<Rightarrow> Some (Inl p)
              | Inr queue' \<Rightarrow> Run_loop fuel cfg en (Suc w) queue' s2))
      else Some (Inr (None, s)))"

text \<open>
  How a call ends: it returns, or the process has exited in a \<open>log.Fatal\<close>. The
  repository's own \<open>log\<close> package is not among the sources, and what its \<open>Fatal\<close> and
  \<open>Fatalf\<close> do after writing the line is not settled by them: they may end the
  process, as those of the standard library do, or only write to the error log. The
  model takes this as the parameter \<open>fatal_exits\<close>.
\<close>

datatype 'a ending = Returns 'a | ProcessExits

text \<open>
  \<open>Run\<close> returns nil (\<open>None\<close>) or an error, in the state it leaves behind. Both places
  where it would return the error of \<open>checkDAG\<close> or of \<open>runQueue\<close> come after a
  \<open>log.Fatal\<close>. A panic of a worker is \<open>Inl\<close>.
\<close>

definition Run ::
  "bool \<Rightarrow> nat \<Rightarrow> config \<Rightarrow> env \<Rightarrow> state \<Rightarrow> (panic + error option \<times> state) ending option"
  where
  "Run fatal_exits fuel cfg en s =
     (case checkDAG s (rangeJobs en) of
        Some err \<Rightarrow> Some (if fatal_exits then ProcessExits else Returns (Inr (Some err, s)))
      | None \<Rightarrow>
          (case genRunQueue cfg s (rangeInDegrees en 0) of
             Inl p \<Rightarrow> Some (Returns (Inl p))
           | Inr queue \<Rightarrow>
               (case Run_loop fuel cfg en 0 queue s of
                  None \<Rightarrow> None
                | Some (Inl p) \<Rightarrow> Some (Returns (Inl p))
                | Some (Inr (Some err, s')) \<Rightarrow>
                    Some (if fatal_exits then ProcessExits else Returns (Inr (Some err, s')))
                | Some (Inr (None, s')) \<Rightarrow>
                    if dom (Fails (tracker (sched s'))) = {} then Some (Returns (Inr (None, s')))
                    else Some (Returns (Inr (Some SomeJobFailed, s'))))))"

subsection \<open>The states a run passes through\<close>

text \<open>
  The state after every pass of the loop of \<open>updateDependences\<close>, after every
  \<open>updateFailCount\<close>, after every worker, and at every test of the loop condition of
  \<open>Run\<close>: the functions below list them in the order in which the run reaches them,
  for the waves that the bound allows.
\<close>

fun updateDependences_states ::
  "config \<Rightarrow> jobref \<Rightarrow> string list \<Rightarrow> state \<Rightarrow> state list" where
  "updateDependences_states cfg job [] s = []"
| "updateDependences_states cfg job (post # rest) s =
     updateDependences_body cfg job post s #
     updateDependences_states cfg job rest (updateDependences_body cfg job post s)"

fun Run_updates_states :: "config \<Rightarrow> jobref list \<Rightarrow> state \<Rightarrow> state list" where
  "Run_updates_states cfg [] s = []"
| "Run_updates_states cfg (job # rest) s =
     updateFailCount job s #
     updateDependences_states cfg job (Post (heap (updateFailCount job s) job))
       (updateFailCount job s) @
     Run_updates_states cfg rest (updateDependences cfg job (updateFailCount job s))"

fun runQueue_states :: "config \<Rightarrow> env \<Rightarrow> nat \<Rightarrow> jobref list \<Rightarrow> state \<Rightarrow> state list" where
  "runQueue_states cfg en w [] s = []"
| "runQueue_states cfg en w (job # rest) s =
     (case runJob cfg en w job s of
        Inl p \<Rightarrow> []
      | Inr s' \<Rightarrow> s' # runQueue_states cfg en w rest s')"

fun Run_loop_states ::
  "nat \<Rightarrow> config \<Rightarrow> env \<Rightarrow> nat \<Rightarrow> jobref list \<Rightarrow> state \<Rightarrow> state list" where
  "Run_loop_states 0 cfg en w queue s = []"
| "Run_loop_states (Suc fuel) cfg en w queue s =
     s #
     (if length queue \<noteq> 0 then
        runQueue_states cfg en w queue s @
        (case runQueue cfg en w queue s of
           Inl p \<Rightarrow> []
         | Inr (Some err, s1) \<Rightarrow> []
         | Inr (None, s1) \<Rightarrow>
             Run_updates_states cfg queue s1 @
             (case genRunQueue cfg (Run_updates cfg queue s1) (rangeInDegrees en (Suc w)) of
                Inl p \<Rightarrow> []
              | Inr queue' \<Rightarrow>
                  Run_loop_states fuel cfg en (Suc w) queue' (Run_updates cfg queue s1)))
      else [])"

definition Run_states :: "nat \<Rightarrow> config \<Rightarrow> env \<Rightarrow> state \<Rightarrow> state list" where
  "Run_states fuel cfg en s =
     s #
     (case checkDAG s (rangeJobs en) of
        Some err \<Rightarrow> []
      | None \<Rightarrow>
          (case genRunQueue cfg s (rangeInDegrees en 0) of
             Inl p \<Rightarrow> []
           | Inr queue \<Rightarrow> Run_loop_states fuel cfg en 0 queue s))"

text \<open>
  The queue and the state at every test of the loop condition; when the queue is not
  empty these are the jobs admitted to the wave and the state in which they are
  dispatched.
\<close>

fun Run_loop_heads ::
  "nat \<Rightarrow> config \<Rightarrow> env \<Rightarrow> nat \<Rightarrow> jobref list \<Rightarrow> state \<Rightarrow> (jobref list \<times> state) list" where
  "Run_loop_heads 0 cfg en w queue s = []"
| "Run_loop_heads (Suc fuel) cfg en w queue s =
     (queue, s) #
     (if length queue \<noteq> 0 then
        (case runQueue cfg en w queue s of
           Inl p \<Rightarrow> []
         | Inr (Some err, s1) \<Rightarrow> []
         | Inr (None, s1) \<Rightarrow>
             (case genRunQueue cfg (Run_updates cfg queue s1) (rangeInDegrees en (Suc w)) of
                Inl p \<Rightarrow> []
              | Inr queue' \<Rightarrow>
                  Run_loop_heads fuel cfg en (Suc w) queue' (Run_updates cfg queue s1)))
      else [])"

definition Run_heads ::
  "nat \<Rightarrow> config \<Rightarrow> env \<Rightarrow> state \<Rightarrow> (jobref list \<times> state) list" where
  "Run_heads fuel cfg en s =
     (case checkDAG s (rangeJobs en) of
        Some err \<Rightarrow> []
      | None \<Rightarrow>
          (case genRunQueue cfg s (rangeInDegrees en 0) of
             Inl p \<Rightarrow> []
           | Inr queue \<Rightarrow> Run_loop_heads fuel cfg en 0 queue s))"

subsection \<open>Well-formed input\<close>

text \<open>
  What the DAG package and the Go runtime guarantee for the input of a run: every
  \<open>range\<close> over the in-degree table visits each of its keys once, every key of the table
  has a job, and the jobs of different keys have different names (\<open>Name\<close> is the unique
  identifier of a job within a DAG).
\<close>

definition well_formed :: "env \<Rightarrow> state \<Rightarrow> bool" where
  "well_formed en s \<longleftrightarrow>
     (\<forall>w. distinct (rangeInDegrees en w) \<and>
          set (rangeInDegrees en w) = dom (InDegrees (dag s))) \<and>
     dom (InDegrees (dag s)) \<subseteq> dom (Jobs (dag s)) \<and>
     inj_on (\<lambda>k. Name (heap s (the (Jobs (dag s) k)))) (dom (InDegrees (dag s)))"

text \<open>
  The attempts a job still has: none once it is Finished or Started, otherwise one
  more than the distance of its fail count from MaxRetry. Their sum over the table
  bounds the number of waves still to come.
\<close>

definition attempts_left :: "config \<Rightarrow> state \<Rightarrow> jobref \<Rightarrow> nat" where
  "attempts_left cfg s job =
     (if Status (heap s job) = Finished \<or> Status (heap s job) = Started then 0
      else Suc (nat (sint (MaxRetry cfg) - sint (fails_get s (Name (heap s job))))))"

definition waves_left :: "config \<Rightarrow> state \<Rightarrow> nat" where
  "waves_left cfg s =
     (\<Sum>k \<in> dom (InDegrees (dag s)). attempts_left cfg s (the (Jobs (dag s) k)))"

subsection \<open>A resumed run: the store of an earlier, interrupted run\<close>

text \<open>
  Four script jobs, \<open>A \<rightarrow> C\<close>, \<open>B \<rightarrow> C\<close>, \<open>C \<rightarrow> D\<close>, all edges strict. The DAG is
  fresh from the parser; the persistent store is the one an earlier run left behind
  that finished A and B and was killed during C.
\<close>

definition resume_heap :: "jobref \<Rightarrow> Job" where
  "resume_heap =
     (\<lambda>r. \<lparr>Name = [], Type = DummyJob, Post = [], Status = NotStarted\<rparr>)
       (0 := \<lparr>Name = ''A'', Type = ScriptJob, Post = [''C''], Status = NotStarted\<rparr>,
        1 := \<lparr>Name = ''B'', Type = ScriptJob, Post = [''C''], Status = NotStarted\<rparr>,
        2 := \<lparr>Name = ''C'', Type = ScriptJob, Post = [''D''], Status = NotStarted\<rparr>,
        3 := \<lparr>Name = ''D'', Type = ScriptJob, Post = [], Status = NotStarted\<rparr>)"

definition resume_dag :: DAG where
  "resume_dag =
     \<lparr>Jobs = [''A'' \<mapsto> 0, ''B'' \<mapsto> 1, ''C'' \<mapsto> 2, ''D'' \<mapsto> 3],
      Relations = [''A'' \<mapsto> [''C'' \<mapsto> \<lparr>NonStrict = False\<rparr>],
                   ''B'' \<mapsto> [''C'' \<mapsto> \<lparr>NonStrict = False\<rparr>],
                   ''C'' \<mapsto> [''D'' \<mapsto> \<lparr>NonStrict = False\<rparr>]],
      InDegrees = [''A'' \<mapsto> 0, ''B'' \<mapsto> 0, ''C'' \<mapsto> 2, ''D'' \<mapsto> 1],
      Builtins = \<lparr>bizdate = [], jobReport = None\<rparr>\<rparr>"

definition resume_sched :: Sched where
  "resume_sched =
     \<lparr>exec = {DummyJob, ScriptJob},
      tracker = \<lparr>Statuses = [''A'' \<mapsto> Finished, ''B'' \<mapsto> Finished, ''C'' \<mapsto> Started],
                 Fails = Map.empty\<rparr>\<rparr>"

definition resume_state :: state where
  "resume_state = \<lparr>heap = resume_heap, dag = resume_dag, sched = resume_sched, events = []\<rparr>"

definition resume_config :: config where
  "resume_config = \<lparr>MaxRetry = 3, Bizdate = ''20150825''\<rparr>"

subsection \<open>A linear flow of synchronisation points, and two environments\<close>

text \<open>Three dummy jobs, \<open>A \<rightarrow> B \<rightarrow> C\<close>, on a fresh tracker.\<close>

definition linear_heap :: "jobref \<Rightarrow> Job" where
  "linear_heap =
     (\<lambda>r. \<lparr>Name = [], Type = DummyJob, Post = [], Status = NotStarted\<rparr>)
       (0 := \<lparr>Name = ''A'', Type = DummyJob, Post = [''B''], Status = NotStarted\<rparr>,
        1 := \<lparr>Name = ''B'', Type = DummyJob, Post = [''C''], Status = NotStarted\<rparr>,
        2 := \<lparr>Name = ''C'', Type = DummyJob, Post = [], Status = NotStarted\<rparr>)"

definition linear_dag :: DAG where
  "linear_dag =
     \<lparr>Jobs = [''A'' \<mapsto> 0, ''B'' \<mapsto> 1, ''C'' \<mapsto> 2],
      Relations = [''A'' \<mapsto> [''B'' \<mapsto> \<lparr>NonStrict = False\<rparr>],
                   ''B'' \<mapsto> [''C'' \<mapsto> \<lparr>NonStrict = False\<rparr>]],
      InDegrees = [''A'' \<mapsto> 0, ''B'' \<mapsto> 1, ''C'' \<mapsto> 1],
      Builtins = \<lparr>bizdate = [], jobReport = None\<rparr>\<rparr>"

definition linear_state :: state where
  "linear_state =
     \<lparr>heap = linear_heap, dag = linear_dag,
      sched = \<lparr>exec = {DummyJob, ScriptJob},
               tracker = \<lparr>Statuses = Map.empty, Fails = Map.empty\<rparr>\<rparr>,
      events = []\<rparr>"

text \<open>
  An environment in which nothing fails and every \<open>range\<close> visits the keys in the order
  \<open>ks\<close>, and one in which every \<open>ResolveJob\<close> fails.
\<close>

definition steady_env :: "string list \<Rightarrow> env" where
  "steady_env ks =
     \<lparr>rangeInDegrees = (\<lambda>w. ks), rangeJobs = ks,
      ResolveJob_fails = (\<lambda>w job. False),
      GetStatus_fails = (\<lambda>w job. False),
      Run_fails = (\<lambda>w job. False)\<rparr>"

definition unresolved_env :: "string list \<Rightarrow> env" where
  "unresolved_env ks = (steady_env ks)\<lparr>ResolveJob_fails := (\<lambda>w job. True)\<rparr>"

section \<open>Running a child process (task/exec/util.go)\<close>

text \<open>
  What the operating system does with the command: whether the pipes and the start
  succeed, the lines and the final error the two scanners yield, and what \<open>cmd.Wait\<close>
  returns. An \<open>*exec.ExitError\<close> carries the exit status when its \<open>Sys()\<close> is a
  \<open>syscall.WaitStatus\<close>.
\<close>

datatype wait_result = WaitNil | WaitExitError "goint option" | WaitOtherError string

record child =
  StdoutPipe_error :: "string option"
  StderrPipe_error :: "string option"
  Start_error :: "string option"
  stderr_lines :: "string list"
  stderr_scan_error :: "string option"
  stdout_lines :: "string list"
  stdout_scan_error :: "string option"
  Wait_result :: wait_result

datatype cmd_error = OSError string | GetExitStatusFail

text \<open>
  A call of \<open>CmdExec\<close> ends like one of \<open>Run\<close>: it returns its pair, or a \<open>log.Fatal\<close>
  has ended the process; \<open>fatal_exits\<close> says which of the two \<open>log.Fatal\<close> does.
  \<open>log.Info\<close> writes a line.
\<close>

datatype log_line = LogInfo string | LogFatal string

definition tagged :: "string \<Rightarrow> string \<Rightarrow> string" where
  "tagged jobname text = ''<'' @ jobname @ ''> '' @ text"

text \<open>
  \<open>log.Fatal(msg)\<close> followed by the rest of the function: the line is written, and the
  rest is run only when \<open>Fatal\<close> comes back.
\<close>

definition log_Fatal ::
  "bool \<Rightarrow> string \<Rightarrow> 'a ending \<times> log_line list \<Rightarrow> 'a ending \<times> log_line list" where
  "log_Fatal fatal_exits msg rest =
     (if fatal_exits then (ProcessExits, [LogFatal msg])
      else (fst rest, LogFatal msg # snd rest))"

definition log_Info ::
  "string \<Rightarrow> 'a ending \<times> log_line list \<Rightarrow> 'a ending \<times> log_line list" where
  "log_Info msg rest = (fst rest, LogInfo msg # snd rest)"

text \<open>The two scanner loops, each followed by the rest of the function.\<close>

fun scan_stderr ::
  "bool \<Rightarrow> string \<Rightarrow> string list \<Rightarrow> 'a ending \<times> log_line list \<Rightarrow> 'a ending \<times> log_line list"
  where
  "scan_stderr fatal_exits jobname [] rest = rest"
| "scan_stderr fatal_exits jobname (l # ls) rest =
     (if length l \<noteq> 0
      then log_Fatal fatal_exits (tagged jobname l) (scan_stderr fatal_exits jobname ls rest)
      else scan_stderr fatal_exits jobname ls rest)"

fun scan_stdout ::
  "string \<Rightarrow> string list \<Rightarrow> 'a ending \<times> log_line list \<Rightarrow> 'a ending \<times> log_line list" where
  "scan_stdout jobname [] rest = rest"
| "scan_stdout jobname (l # ls) rest =
     (if length l \<noteq> 0
      then log_Info (tagged jobname l) (scan_stdout jobname ls rest)
      else scan_stdout jobname ls rest)"

definition scanner_Err ::
  "bool \<Rightarrow> string option \<Rightarrow> 'a ending \<times> log_line list \<Rightarrow> 'a ending \<times> log_line list" where
  "scanner_Err fatal_exits err rest =
     (case err of
        None \<Rightarrow> rest
      | Some e \<Rightarrow> log_Fatal fatal_exits (''reading standard input: '' @ e) rest)"

text \<open>
  The result is how the call ends, with the pair \<open>(int, error)\<close> it returns, and the
  lines it logs.
\<close>

definition CmdExec ::
  "bool \<Rightarrow> string \<Rightarrow> child \<Rightarrow> (goint \<times> cmd_error option) ending \<times> log_line list" where
  "CmdExec fatal_exits jobname c =
     (case StdoutPipe_error c of
        Some e \<Rightarrow> log_Fatal fatal_exits e (Returns (0, Some (OSError e)), [])
      | None \<Rightarrow>
     (case StderrPipe_error c of
        Some e \<Rightarrow> log_Fatal fatal_exits e (Returns (0, Some (OSError e)), [])
      | None \<Rightarrow>
     (case Start_error c of
        Some e \<Rightarrow> log_Fatal fatal_exits e (Returns (0, Some (OSError e)), [])
      | None \<Rightarrow>
          scan_stderr fatal_exits jobname (stderr_lines c)
         (scanner_Err fatal_exits (stderr_scan_error c)
         (scan_stdout jobname (stdout_lines c)
         (scanner_Err fatal_exits (stdout_scan_error c)
         (case Wait_result c of
            WaitExitError (Some status) \<Rightarrow> (Returns (status, None), [])
          | WaitExitError None \<Rightarrow> (Returns (0, Some GetExitStatusFail), [])
          | WaitOtherError e \<Rightarrow>
              log_Fatal fatal_exits (''cmd.Wait: '' @ e) (Returns (0, Some (OSError e)), [])
          | WaitNil \<Rightarrow> (Returns (0, None), []))))))))"

text \<open>
  Whether a call of \<open>log.Fatal\<close> or \<open>log.Fatalf\<close> comes before \<open>cmd.Wait\<close>: a line of
  stderr that is not empty, or an error of one of the scanners.
\<close>

definition Fatal_before_Wait :: "child \<Rightarrow> bool" where
  "Fatal_before_Wait c \<longleftrightarrow>
     list_ex (\<lambda>l. length l \<noteq> 0) (stderr_lines c) \<or>
     stderr_scan_error c \<noteq> None \<or> stdout_scan_error c \<noteq> None"

text \<open>
  A child that starts, prints the lines \<open>errs\<close> to stderr and one line to stdout, and
  ends as \<open>r\<close> says.
\<close>

definition exited_child :: "string list \<Rightarrow> wait_result \<Rightarrow> child" where
  "exited_child errs r =
     \<lparr>StdoutPipe_error = None, StderrPipe_error = None, Start_error = None,
      stderr_lines = errs, stderr_scan_error = None,
      stdout_lines = [''done''], stdout_scan_error = None, Wait_result = r\<rparr>"

section \<open>The workflow parser (xmlparser.go)\<close>

record XMLDep =
  dep_Res :: string
  dep_Var :: "string list"

record XMLDo =
  do_Res :: string
  do_Arg :: "string list"

record XMLStep =
  step_Name :: string
  step_Var :: "string list"
  step_Dep :: "XMLDep list"
  step_Do :: "XMLDo list"

record XMLJob =
  job_Name :: string
  job_Type :: string
  job_Var :: "string list"

type_synonym vars = "string \<rightharpoonup> string"

text \<open>
  The \<open>Job\<close> interface of the flow package with its two implementations, as far as the
  parser uses them: \<open>NewODPSJob\<close>/\<open>NewHadoopJob\<close>, \<open>SetName\<close>, \<open>SetVar\<close>.
\<close>

datatype job_kind = ODPSKind | HadoopKind

record FlowJob =
  jobKind :: job_kind
  jobName :: string
  jobVar :: vars

text \<open>A \<open>*Step\<close>; the entries of \<open>Dep\<close> and \<open>Do\<close> can be nil.\<close>

datatype Step =
  Step (StepName: string) (StepVar: vars) (StepDep: "Step option list")
    (StepDo: "FlowJob option list")

text \<open>
  How a call ends: it returns, it panics (\<open>panic\<close>, \<open>log.Panic\<close>), or the process
  exits (\<open>log.Fatal\<close> of the standard library).
\<close>

datatype 'a outcome = Return 'a | Panic string | Exit

text \<open>
  The file system, the XML decoder, the calculator (\<open>calc\<close>, with the maps added by
  \<open>AddVarMap\<close> in order) and the validity check of a job are outside these sources.
\<close>

record penv =
  ReadFile :: "string \<Rightarrow> string option"
  Unmarshal_step :: "string \<Rightarrow> XMLStep option"
  Unmarshal_job :: "string \<Rightarrow> XMLJob option"
  DoEval :: "vars list \<Rightarrow> string + vars"
  IsValid :: "FlowJob \<Rightarrow> bool"

text \<open>\<open>strings.Split\<close> for a separator of one character; every caller passes \<open>=\<close>.\<close>

fun Split :: "string \<Rightarrow> char \<Rightarrow> string list" where
  "Split [] sep = [[]]"
| "Split (c # cs) sep =
     (if c = sep then [] # Split cs sep
      else (case Split cs sep of [] \<Rightarrow> [[c]] | t # ts \<Rightarrow> (c # t) # ts))"

fun updateMapWithArray :: "vars \<Rightarrow> string list \<Rightarrow> char \<Rightarrow> vars outcome" where
  "updateMapWithArray dest [] sep = Return dest"
| "updateMapWithArray dest (v # rest) sep =
     (case Split v sep of
        [k, x] \<Rightarrow> updateMapWithArray (dest(k \<mapsto> x)) rest sep
      | _ \<Rightarrow> Exit)"

definition arrayToMap :: "string list \<Rightarrow> char \<Rightarrow> vars outcome" where
  "arrayToMap array sep = updateMapWithArray Map.empty array sep"

text \<open>A nil map (\<open>None\<close>) is not added to the calculator.\<close>

definition evalMap :: "penv \<Rightarrow> vars option list \<Rightarrow> string + vars" where
  "evalMap pe maps =
     DoEval pe (concat (map (\<lambda>m. case m of None \<Rightarrow> [] | Some x \<Rightarrow> [x]) maps))"


definition parseJobFromFile ::
  "penv \<Rightarrow> string \<Rightarrow> string \<Rightarrow> vars option \<Rightarrow> FlowJob option outcome" where
  "parseJobFromFile pe entry workdir preDefinedVars =
     (case ReadFile pe (workdir @ ''/'' @ entry) of
        None \<Rightarrow> Exit
      | Some data \<Rightarrow>
     (case Unmarshal_job pe data of
        None \<Rightarrow> Return None
      | Some j \<Rightarrow>
     (if job_Type j \<noteq> ''odps'' \<and> job_Type j \<noteq> ''hadoop'' then Panic ''unknown job type''
      else
     (let job = \<lparr>jobKind = (if job_Type j = ''odps'' then ODPSKind else HadoopKind),
                 jobName = job_Name j, jobVar = Map.empty\<rparr>
      in case arrayToMap (job_Var j) CHR ''='' of
           Exit \<Rightarrow> Exit
         | Panic m \<Rightarrow> Panic m
         | Return localVar \<Rightarrow>
             (case evalMap pe [preDefinedVars, Some localVar] of
                Inl err \<Rightarrow> Panic err
              | Inr out \<Rightarrow>
                  if \<not> IsValid pe (job\<lparr>jobVar := out\<rparr>) then Panic ''job is invalid''
                  else Return (Some (job\<lparr>jobVar := out\<rparr>)))))))"

text \<open>The loop over \<open>s.Do\<close> in \<open>parseStepFromFile\<close>; \<open>acc\<close> is \<open>step.Do\<close> so far.\<close>

fun parseDo ::
  "penv \<Rightarrow> string \<Rightarrow> vars option \<Rightarrow> vars \<Rightarrow> XMLDo list \<Rightarrow> FlowJob option list \<Rightarrow>
     FlowJob option list outcome" where
  "parseDo pe workdir pre stepVar [] acc = Return acc"
| "parseDo pe workdir pre stepVar (d # rest) acc =
     (case arrayToMap (do_Arg d) CHR ''='' of
        Exit \<Rightarrow> Exit
      | Panic m \<Rightarrow> Panic m
      | Return localVar0 \<Rightarrow>
          (case evalMap pe [pre, Some stepVar, Some localVar0] of
             Inl err \<Rightarrow> Panic err
           | Inr localVar \<Rightarrow>
               (case parseJobFromFile pe (do_Res d) workdir (Some localVar) of
                  Return job \<Rightarrow> parseDo pe workdir pre stepVar rest (acc @ [job])
                | Panic m \<Rightarrow> Panic m
                | Exit \<Rightarrow> Exit)))"

text \<open>
  \<open>parseStepFromFile\<close> follows the \<open>dep\<close> references from file to file and need not
  end; the first argument bounds the depth of the references followed, and the result
  is \<open>None\<close> when the bound is used up. \<open>parseDep\<close> is its loop over \<open>s.Dep\<close>.
\<close>

fun parseStepFromFile ::
  "nat \<Rightarrow> penv \<Rightarrow> string \<Rightarrow> string \<Rightarrow> vars option \<Rightarrow> Step option outcome option"
and parseDep ::
  "nat \<Rightarrow> penv \<Rightarrow> string \<Rightarrow> vars option \<Rightarrow> vars \<Rightarrow> XMLDep list \<Rightarrow> Step option list \<Rightarrow>
     Step option list outcome option" where
  "parseStepFromFile 0 pe entry workdir preDefinedVars = None"
| "parseStepFromFile (Suc fuel) pe entry workdir preDefinedVars =
     (case ReadFile pe (workdir @ ''/'' @ entry) of
        None \<Rightarrow> Some Exit
      | Some data \<Rightarrow>
     (case Unmarshal_step pe data of
        None \<Rightarrow> Some (Return None)
      | Some s \<Rightarrow>
     (case arrayToMap (step_Var s) CHR ''='' of
        Exit \<Rightarrow> Some Exit
      | Panic m \<Rightarrow> Some (Panic m)
      | Return stepVar0 \<Rightarrow>
     (case evalMap pe [preDefinedVars, Some stepVar0] of
        Inl err \<Rightarrow> Some (Panic err)
      | Inr stepVar \<Rightarrow>
     (case parseDo pe workdir preDefinedVars stepVar (step_Do s) [] of
        Exit \<Rightarrow> Some Exit
      | Panic m \<Rightarrow> Some (Panic m)
      | Return dos \<Rightarrow>
     (case parseDep fuel pe workdir preDefinedVars stepVar (step_Dep s) [] of
        None \<Rightarrow> None
      | Some Exit \<Rightarrow> Some Exit
      | Some (Panic m) \<Rightarrow> Some (Panic m)
      | Some (Return deps) \<Rightarrow>
          Some (Return (Some (Step (step_Name s) stepVar deps dos)))))))))"
| "parseDep fuel pe workdir pre stepVar [] acc = Some (Return acc)"
| "parseDep fuel pe workdir pre stepVar (d # rest) acc =
     (case arrayToMap (dep_Var d) CHR ''='' of
        Exit \<Rightarrow> Some Exit
      | Panic m \<Rightarrow> Some (Panic m)
      | Return localVar0 \<Rightarrow>
          (case evalMap pe [pre, Some stepVar, Some localVar0] of
             Inl err \<Rightarrow> Some (Panic err)
           | Inr localVar \<Rightarrow>
               (case parseStepFromFile fuel pe (dep_Res d) workdir (Some localVar) of
                  None \<Rightarrow> None
                | Some (Return step) \<Rightarrow>
                    parseDep fuel pe workdir pre stepVar rest (acc @ [step])
                | Some (Panic m) \<Rightarrow> Some (Panic m)
                | Some Exit \<Rightarrow> Some Exit)))"

subsection \<open>Inputs on which an evaluation of variables fails\<close>

text \<open>
  The inputs of which C7 speaks, stated on the files and the calculator. For a job
  file: the file is read and decoded, its type is known, its variables split, and the
  calculator returns an error for them.
\<close>

definition job_evaluation_fails ::
  "penv \<Rightarrow> string \<Rightarrow> string \<Rightarrow> vars option \<Rightarrow> string \<Rightarrow> bool" where
  "job_evaluation_fails pe entry workdir pre err \<longleftrightarrow>
     (case ReadFile pe (workdir @ ''/'' @ entry) of
        None \<Rightarrow> False
      | Some data \<Rightarrow>
     (case Unmarshal_job pe data of
        None \<Rightarrow> False
      | Some j \<Rightarrow>
          (job_Type j = ''odps'' \<or> job_Type j = ''hadoop'') \<and>
          (case arrayToMap (job_Var j) CHR ''='' of
             Return localVar \<Rightarrow> evalMap pe [pre, Some localVar] = Inl err
           | _ \<Rightarrow> False)))"

text \<open>
  A step file that is read and decoded and whose variables split, with what the
  calculator returns for them; and what it returns for the local variables of a do or
  dep of that step.
\<close>

definition opened_step ::
  "penv \<Rightarrow> string \<Rightarrow> string \<Rightarrow> vars option \<Rightarrow> (XMLStep \<times> (string + vars)) option" where
  "opened_step pe entry workdir pre =
     (case ReadFile pe (workdir @ ''/'' @ entry) of
        None \<Rightarrow> None
      | Some data \<Rightarrow>
     (case Unmarshal_step pe data of
        None \<Rightarrow> None
      | Some s \<Rightarrow>
     (case arrayToMap (step_Var s) CHR ''='' of
        Return stepVar0 \<Rightarrow> Some (s, evalMap pe [pre, Some stepVar0])
      | _ \<Rightarrow> None)))"

definition local_evaluation ::
  "penv \<Rightarrow> vars option \<Rightarrow> vars \<Rightarrow> string list \<Rightarrow> (string + vars) option" where
  "local_evaluation pe pre stepVar array =
     (case arrayToMap array CHR ''='' of
        Return localVar0 \<Rightarrow> Some (evalMap pe [pre, Some stepVar, Some localVar0])
      | _ \<Rightarrow> None)"

text \<open>
  For a step file: the calculator returns an error for the variables of the step; or
  for the local variables of one of its dos, or for the variables of the job of that
  do, the dos before it having been parsed; or, all dos having been parsed, for the
  local variables of one of its deps, or somewhere in the step file of that dep, the
  deps before it having been parsed.
\<close>

inductive step_evaluation_fails ::
  "penv \<Rightarrow> string \<Rightarrow> string \<Rightarrow> vars option \<Rightarrow> string \<Rightarrow> bool" for pe where
  step_var:
    "opened_step pe entry workdir pre = Some (s, Inl err) \<Longrightarrow>
     step_evaluation_fails pe entry workdir pre err"
| do_var:
    "opened_step pe entry workdir pre = Some (s, Inr stepVar) \<Longrightarrow>
     step_Do s = before @ d # after \<Longrightarrow>
     parseDo pe workdir pre stepVar before [] = Return jobs \<Longrightarrow>
     local_evaluation pe pre stepVar (do_Arg d) = Some (Inl err) \<Longrightarrow>
     step_evaluation_fails pe entry workdir pre err"
| job_var:
    "opened_step pe entry workdir pre = Some (s, Inr stepVar) \<Longrightarrow>
     step_Do s = before @ d # after \<Longrightarrow>
     parseDo pe workdir pre stepVar before [] = Return jobs \<Longrightarrow>
     local_evaluation pe pre stepVar (do_Arg d) = Some (Inr localVar) \<Longrightarrow>
     job_evaluation_fails pe (do_Res d) workdir (Some localVar) err \<Longrightarrow>
     step_evaluation_fails pe entry workdir pre err"
| dep_var:
    "opened_step pe entry workdir pre = Some (s, Inr stepVar) \<Longrightarrow>
     parseDo pe workdir pre stepVar (step_Do s) [] = Return jobs \<Longrightarrow>
     step_Dep s = before @ d # after \<Longrightarrow>
     parseDep n pe workdir pre stepVar before [] = Some (Return steps) \<Longrightarrow>
     local_evaluation pe pre stepVar (dep_Var d) = Some (Inl err) \<Longrightarrow>
     step_evaluation_fails pe entry workdir pre err"
| dep_step:
    "opened_step pe entry workdir pre = Some (s, Inr stepVar) \<Longrightarrow>
     parseDo pe workdir pre stepVar (step_Do s) [] = Return jobs \<Longrightarrow>
     step_Dep s = before @ d # after \<Longrightarrow>
     parseDep n pe workdir pre stepVar before [] = Some (Return steps) \<Longrightarrow>
     local_evaluation pe pre stepVar (dep_Var d) = Some (Inr localVar) \<Longrightarrow>
     step_evaluation_fails pe (dep_Res d) workdir (Some localVar) err \<Longrightarrow>
     step_evaluation_fails pe entry workdir pre err"

subsection \<open>A work directory with an expression the calculator rejects\<close>

text \<open>
  \<open>flow.xml\<close> is a step that runs the job of \<open>load.xml\<close>; \<open>daily.xml\<close> is a step of its
  own, and \<open>weekly.xml\<close> a step that depends on it. The job and the step \<open>daily\<close> bind
  \<open>day\<close> to an expression that the calculator of this example cannot evaluate.
\<close>

definition example_files :: penv where
  "example_files =
     \<lparr>ReadFile = [''/work/flow.xml'' \<mapsto> ''flow'', ''/work/load.xml'' \<mapsto> ''load'',
                  ''/work/daily.xml'' \<mapsto> ''daily'', ''/work/weekly.xml'' \<mapsto> ''weekly''],
      Unmarshal_step =
        [''flow'' \<mapsto> \<lparr>step_Name = ''flow'', step_Var = [''region=eu''], step_Dep = [],
                       step_Do = [\<lparr>do_Res = ''load.xml'', do_Arg = [''table=t1'']\<rparr>]\<rparr>,
         ''daily'' \<mapsto> \<lparr>step_Name = ''daily'', step_Var = [''day=yesterday()''],
                        step_Dep = [], step_Do = []\<rparr>,
         ''weekly'' \<mapsto> \<lparr>step_Name = ''weekly'', step_Var = [],
                         step_Dep = [\<lparr>dep_Res = ''daily.xml'', dep_Var = [''region=us'']\<rparr>],
                         step_Do = []\<rparr>],
      Unmarshal_job =
        [''load'' \<mapsto> \<lparr>job_Name = ''load'', job_Type = ''odps'',
                       job_Var = [''day=yesterday()'']\<rparr>],
      DoEval = (\<lambda>ms. if list_ex (\<lambda>m. m ''day'' = Some ''yesterday()'') ms
                      then Inl ''unknown function: yesterday''
                      else Inr (foldl (++) Map.empty ms)),
      IsValid = (\<lambda>job. True)\<rparr>"

section \<open>Properties of the scheduler\<close>

lemmas sched_defs =
  genRunQueue_def runQueue_def runJob_def getExec_def GetStatus_def SetStatus_def
  tracker_SetStatus_def SetBizdate_def SetJobReport_def Exec_Run_def set_Status_def emit_def
  set_Fails_def set_InDegrees_def fails_get_def indegree_get_def relation_get_def
  updateFailCount_def updateDependences_def updateDependences_body_def checkDAG_def
  decrement_rule_def

lemmas example_defs =
  resume_state_def resume_heap_def resume_dag_def resume_sched_def resume_config_def
  linear_state_def linear_heap_def linear_dag_def steady_env_def unresolved_env_def

subsection \<open>The ready queue\<close>

lemma genRunQueue_loop_returns:
  "\<forall>e \<in> set es. Jobs (dag s) (fst e) \<noteq> None \<Longrightarrow>
   \<exists>q. genRunQueue_loop cfg s es queue = Inr q"
  by (induction cfg s es queue rule: genRunQueue_loop.induct) (auto split: option.splits)

lemma genRunQueue_loop_members:
  "genRunQueue_loop cfg s es queue = Inr q \<Longrightarrow>
   job \<in> set q \<longleftrightarrow>
     job \<in> set queue \<or>
     (\<exists>name. (name, 0) \<in> set es \<and> Jobs (dag s) name = Some job \<and>
        Status (heap s job) \<noteq> Finished \<and> Status (heap s job) \<noteq> Started \<and>
        fails_get s (Name (heap s job)) <s MaxRetry cfg)"
proof (induction es arbitrary: queue)
  case Nil
  then show ?case by simp
next
  case (Cons e es)
  obtain name ind where e: "e = (name, ind)" by (cases e)
  from Cons.prems e obtain j where j: "Jobs (dag s) name = Some j"
    by (auto split: option.splits)
  let ?ready = "ind = 0 \<and> Status (heap s j) \<noteq> Finished \<and> Status (heap s j) \<noteq> Started \<and>
    fails_get s (Name (heap s j)) <s MaxRetry cfg"
  from Cons.prems e j
  have "genRunQueue_loop cfg s es (if ?ready then queue @ [j] else queue) = Inr q"
    by simp
  from Cons.IH [OF this] e j show ?case
    by (cases ?ready) auto
qed

lemma set_range_entries:
  "(k, v) \<in> set (range_entries m ks) \<longleftrightarrow> k \<in> set ks \<and> m k = Some v"
  by (induction ks) (auto split: option.splits)

text \<open>
  C1. When \<open>range d.InDegrees\<close> visits every key of the table and every key has a job,
  \<open>genRunQueue\<close> returns a queue, and a job is in it exactly when it is the job of a
  key whose in-degree is 0, its status is neither Finished nor Started, and its fail
  count is below MaxRetry. A job whose fail count has reached MaxRetry is not in it.
\<close>

theorem genRunQueue_ready:
  assumes "set ks = dom (InDegrees (dag s))"
    and "dom (InDegrees (dag s)) \<subseteq> dom (Jobs (dag s))"
  shows "\<exists>queue. genRunQueue cfg s ks = Inr queue \<and>
    (\<forall>job. job \<in> set queue \<longleftrightarrow>
       (\<exists>name. InDegrees (dag s) name = Some 0 \<and> Jobs (dag s) name = Some job \<and>
          Status (heap s job) \<noteq> Finished \<and> Status (heap s job) \<noteq> Started \<and>
          fails_get s (Name (heap s job)) <s MaxRetry cfg)) \<and>
    (\<forall>job \<in> set queue. \<not> MaxRetry cfg \<le>s fails_get s (Name (heap s job)))"
proof -
  let ?es = "range_entries (InDegrees (dag s)) ks"
  have "\<forall>e \<in> set ?es. Jobs (dag s) (fst e) \<noteq> None"
    using assms(2) by (auto simp: set_range_entries dest: domD [OF subsetD, OF _ domI])
  then obtain queue where q: "genRunQueue_loop cfg s ?es [] = Inr queue"
    using genRunQueue_loop_returns [of ?es s cfg "[]"] by blast
  have mem: "job \<in> set queue \<longleftrightarrow>
       (\<exists>name. InDegrees (dag s) name = Some 0 \<and> Jobs (dag s) name = Some job \<and>
          Status (heap s job) \<noteq> Finished \<and> Status (heap s job) \<noteq> Started \<and>
          fails_get s (Name (heap s job)) <s MaxRetry cfg)" for job
    using genRunQueue_loop_members [OF q, of job] assms(1)
    by (auto simp: set_range_entries)
  have "\<forall>job \<in> set queue. \<not> MaxRetry cfg \<le>s fails_get s (Name (heap s job))"
    using mem by (auto simp: word_sle_eq word_sless_alt)
  with q mem show ?thesis
    by (simp add: genRunQueue_def)
qed

theorem genRunQueue_ready_witness:
  "set [''A'', ''B'', ''C'', ''D''] = dom (InDegrees (dag resume_state)) \<and>
   dom (InDegrees (dag resume_state)) \<subseteq> dom (Jobs (dag resume_state)) \<and>
   (\<exists>queue. genRunQueue resume_config resume_state [''A'', ''B'', ''C'', ''D''] = Inr queue \<and>
     (\<forall>job. job \<in> set queue \<longleftrightarrow>
       (\<exists>name. InDegrees (dag resume_state) name = Some 0 \<and>
          Jobs (dag resume_state) name = Some job \<and>
          Status (heap resume_state job) \<noteq> Finished \<and>
          Status (heap resume_state job) \<noteq> Started \<and>
          fails_get resume_state (Name (heap resume_state job)) <s MaxRetry resume_config)) \<and>
     (\<forall>job \<in> set queue.
        \<not> MaxRetry resume_config \<le>s fails_get resume_state (Name (heap resume_state job))))"
proof -
  have h1: "set [''A'', ''B'', ''C'', ''D''] = dom (InDegrees (dag resume_state))"
    by (auto simp: resume_state_def resume_dag_def)
  have h2: "dom (InDegrees (dag resume_state)) \<subseteq> dom (Jobs (dag resume_state))"
    by (auto simp: resume_state_def resume_dag_def)
  from genRunQueue_ready [OF h1 h2, of resume_config] h1 h2 show ?thesis
    by blast
qed

subsection \<open>Dependences\<close>

lemma updateDependences_body_eq:
  "updateDependences_body cfg u v s =
     (if indegree_get s v \<noteq> 0 \<and> decrement_rule cfg s u v
      then set_InDegrees ((InDegrees (dag s))(v \<mapsto> indegree_get s v - 1)) s else s)"
  by (auto simp: updateDependences_body_def decrement_rule_def Let_def split: option.splits)

lemma set_InDegrees_frame [simp]:
  "heap (set_InDegrees f s) = heap s"
  "sched (set_InDegrees f s) = sched s"
  "events (set_InDegrees f s) = events s"
  "Jobs (dag (set_InDegrees f s)) = Jobs (dag s)"
  "Relations (dag (set_InDegrees f s)) = Relations (dag s)"
  "Builtins (dag (set_InDegrees f s)) = Builtins (dag s)"
  "InDegrees (dag (set_InDegrees f s)) = f"
  by (simp_all add: set_InDegrees_def)

lemma updateDependences_body_frame [simp]:
  "heap (updateDependences_body cfg u v s) = heap s"
  "sched (updateDependences_body cfg u v s) = sched s"
  "events (updateDependences_body cfg u v s) = events s"
  "Jobs (dag (updateDependences_body cfg u v s)) = Jobs (dag s)"
  "Relations (dag (updateDependences_body cfg u v s)) = Relations (dag s)"
  "Builtins (dag (updateDependences_body cfg u v s)) = Builtins (dag s)"
  by (simp_all add: updateDependences_body_eq)

lemma updateDependences_loop_frame [simp]:
  "heap (updateDependences_loop cfg u ps s) = heap s"
  "sched (updateDependences_loop cfg u ps s) = sched s"
  "events (updateDependences_loop cfg u ps s) = events s"
  "Jobs (dag (updateDependences_loop cfg u ps s)) = Jobs (dag s)"
  "Relations (dag (updateDependences_loop cfg u ps s)) = Relations (dag s)"
  "Builtins (dag (updateDependences_loop cfg u ps s)) = Builtins (dag s)"
  by (induction ps arbitrary: s; simp)+

lemma decrement_rule_cong:
  "heap s' = heap s \<Longrightarrow> sched s' = sched s \<Longrightarrow> Relations (dag s') = Relations (dag s) \<Longrightarrow>
   decrement_rule cfg s' u v = decrement_rule cfg s u v"
  by (simp add: decrement_rule_def fails_get_def relation_get_def)

lemma updateDependences_loop_InDegrees:
  "distinct ps \<Longrightarrow>
   InDegrees (dag (updateDependences_loop cfg u ps s)) v =
     (if v \<in> set ps \<and> indegree_get s v \<noteq> 0 \<and> decrement_rule cfg s u v
      then Some (indegree_get s v - 1) else InDegrees (dag s) v)"
proof (induction ps arbitrary: s)
  case Nil
  then show ?case by simp
next
  case (Cons p ps)
  let ?s' = "updateDependences_body cfg u p s"
  have dec: "decrement_rule cfg ?s' u v = decrement_rule cfg s u v"
    by (rule decrement_rule_cong) simp_all
  have other: "v \<noteq> p \<Longrightarrow> InDegrees (dag ?s') v = InDegrees (dag s) v"
    by (simp add: updateDependences_body_eq)
  have same: "InDegrees (dag ?s') p =
     (if indegree_get s p \<noteq> 0 \<and> decrement_rule cfg s u p
      then Some (indegree_get s p - 1) else InDegrees (dag s) p)"
    by (simp add: updateDependences_body_eq)
  from Cons.prems have d: "distinct ps" and np: "p \<notin> set ps" by simp_all
  show ?case
  proof (cases "v = p")
    case True
    with Cons.IH [OF d, of ?s'] np same show ?thesis by simp
  next
    case False
    with Cons.IH [OF d, of ?s'] other dec show ?thesis
      by (simp add: indegree_get_def)
  qed
qed

text \<open>
  C2. One pass of the loop of \<open>updateDependences\<close> for a successor \<open>v\<close> of the completed
  job \<open>u\<close> writes \<open>InDegrees[v] - 1\<close> exactly when the in-degree of \<open>v\<close> is not 0 and the
  decrement rule holds (\<open>u\<close> Finished, or \<open>u\<close> Failed with its fail count at MaxRetry and
  the edge non-strict), and leaves the state as it is otherwise. When the successors
  of \<open>u\<close> are listed once each, the whole call decrements exactly those successors, and
  changes nothing but the in-degree table.
\<close>

theorem updateDependences_decrement_rule:
  assumes "distinct (Post (heap s u))"
  shows "updateDependences_body cfg u v s =
       (if indegree_get s v \<noteq> 0 \<and> decrement_rule cfg s u v
        then set_InDegrees ((InDegrees (dag s))(v \<mapsto> indegree_get s v - 1)) s else s) \<and>
     InDegrees (dag (updateDependences cfg u s)) v =
       (if v \<in> set (Post (heap s u)) \<and> indegree_get s v \<noteq> 0 \<and> decrement_rule cfg s u v
        then Some (indegree_get s v - 1) else InDegrees (dag s) v) \<and>
     heap (updateDependences cfg u s) = heap s \<and>
     sched (updateDependences cfg u s) = sched s"
  using assms
  by (simp add: updateDependences_def updateDependences_loop_InDegrees
      updateDependences_body_eq [symmetric])

theorem updateDependences_decrement_rule_witness:
  "distinct (Post (heap (set_Status 0 Finished resume_state) 0)) \<and>
   indegree_get (set_Status 0 Finished resume_state) ''C'' = 2 \<and>
   InDegrees (dag (updateDependences resume_config 0 (set_Status 0 Finished resume_state))) ''C''
     = Some 1 \<and>
   InDegrees (dag (updateDependences resume_config 0 (set_Status 0 Finished resume_state))) ''D''
     = Some 1 \<and>
   InDegrees (dag (updateDependences resume_config 0 (set_Status 0 Failed resume_state))) ''C''
     = Some 2"
proof -
  have h: "distinct (Post (heap (set_Status 0 Finished resume_state) 0))"
    and h': "distinct (Post (heap (set_Status 0 Failed resume_state) 0))"
    by (simp_all add: set_Status_def example_defs)
  show ?thesis
    using h
      updateDependences_decrement_rule [OF h, of resume_config "''C''"]
      updateDependences_decrement_rule [OF h, of resume_config "''D''"]
      updateDependences_decrement_rule [OF h', of resume_config "''C''"]
    by (simp add: set_Status_def indegree_get_def decrement_rule_def fails_get_def
        relation_get_def example_defs word_sle_eq)
qed

subsection \<open>Dispatch of one job\<close>

text \<open>
  C9 (as the claim states it) fails for a dummy job whose \<open>ResolveJob\<close> fails: the job
  becomes Failed and \<open>SetStatus\<close> records it in the persistent store.
\<close>

theorem dummy_unresolved_is_recorded:
  "Type (heap linear_state 0) = DummyJob \<and>
   \<not> isl (runJob resume_config (unresolved_env [''A'', ''B'', ''C'']) 0 0 linear_state) \<and>
   Status (heap (projr (runJob resume_config (unresolved_env [''A'', ''B'', ''C'']) 0 0
      linear_state)) 0) = Failed \<and>
   events (projr (runJob resume_config (unresolved_env [''A'', ''B'', ''C'']) 0 0
      linear_state)) = [CallSetStatus ''A'' Failed] \<and>
   Statuses (tracker (sched (projr (runJob resume_config (unresolved_env [''A'', ''B'', ''C''])
      0 0 linear_state)))) ''A'' = Some Failed"
  by (simp add: sched_defs example_defs)

text \<open>
  C9, amended. A dispatched job of type Dummy whose \<open>ResolveJob\<close> succeeds becomes
  Finished in memory; the tracker is neither read nor written (no event, the scheduler
  with its store unchanged), whatever the store holds for the job's name, so the job is
  neither recorded in the store nor skipped as finished or started.
\<close>

theorem dummy_job_bypasses_tracker:
  assumes "Type (heap s job) = DummyJob" and "\<not> ResolveJob_fails en w job"
  shows "\<exists>s'. runJob cfg en w job s = Inr s' \<and> Status (heap s' job) = Finished \<and>
    events s' = events s \<and> sched s' = sched s"
  using assms by (simp add: runJob_def SetBizdate_def set_Status_def)

theorem dummy_job_bypasses_tracker_witness:
  "Type (heap linear_state 0) = DummyJob \<and>
   \<not> ResolveJob_fails (steady_env [''A'', ''B'', ''C'']) 0 0 \<and>
   (\<exists>s'. runJob resume_config (steady_env [''A'', ''B'', ''C'']) 0 0 linear_state = Inr s' \<and>
      Status (heap s' 0) = Finished \<and> events s' = events linear_state \<and>
      sched s' = sched linear_state)"
proof -
  have h1: "Type (heap linear_state 0) = DummyJob"
    by (simp add: example_defs)
  have h2: "\<not> ResolveJob_fails (steady_env [''A'', ''B'', ''C'']) 0 0"
    by (simp add: example_defs)
  from dummy_job_bypasses_tracker [OF h1 h2, of resume_config] h1 h2 show ?thesis
    by blast
qed

text \<open>
  C10. \<open>ResolveJob\<close> comes before the check of the persisted status: when it fails, the
  worker sets the job to Failed and writes that through the tracker, without reading
  the store. The record under the job's name is Failed afterwards, whatever it was
  before, a Finished record included.
\<close>

theorem unresolved_job_overwrites_store:
  assumes "ResolveJob_fails en w job"
  shows "\<exists>s'. runJob cfg en w job s = Inr s' \<and> Status (heap s' job) = Failed \<and>
    Statuses (tracker (sched s')) (Name (heap s job)) = Some Failed \<and>
    events s' = events s @ [CallSetStatus (Name (heap s job)) Failed]"
  using assms
  by (simp add: runJob_def SetBizdate_def set_Status_def tracker_SetStatus_def SetStatus_def
      SetJobReport_def emit_def)

theorem unresolved_job_overwrites_store_witness:
  "ResolveJob_fails (unresolved_env [''A'', ''B'', ''C'', ''D'']) 0 0 \<and>
   Statuses (tracker (sched resume_state)) (Name (heap resume_state 0)) = Some Finished \<and>
   (\<exists>s'. runJob resume_config (unresolved_env [''A'', ''B'', ''C'', ''D'']) 0 0 resume_state
        = Inr s' \<and>
      Status (heap s' 0) = Failed \<and>
      Statuses (tracker (sched s')) (Name (heap resume_state 0)) = Some Failed \<and>
      events s' = events resume_state @ [CallSetStatus (Name (heap resume_state 0)) Failed])"
proof -
  have h: "ResolveJob_fails (unresolved_env [''A'', ''B'', ''C'', ''D'']) 0 0"
    by (simp add: example_defs)
  have st: "Statuses (tracker (sched resume_state)) (Name (heap resume_state 0)) = Some Finished"
    by (simp add: example_defs)
  from unresolved_job_overwrites_store [OF h, of resume_config resume_state] h st
  show ?thesis by blast
qed

subsection \<open>Invariants of a run\<close>

lemma sint_succ: "n <s m \<Longrightarrow> sint (n + 1) = sint n + 1" for n m :: goint
proof -
  assume "n <s m"
  then have "sint n < sint m" by (simp add: word_sless_alt)
  moreover have "sint m < 2 ^ 63" using sint_lt [of m] by simp
  moreover have "- (2 ^ 63) \<le> sint n" using sint_ge [of n] by simp
  ultimately have "- (2 ^ 63) \<le> sint n + 1" "sint n + 1 < 2 ^ 63" by linarith+
  then have "signed_take_bit 63 (sint n + 1) = sint n + 1"
    by (simp add: signed_take_bit_int_eq_self)
  then show ?thesis by (simp add: sint_word_ariths)
qed

lemma sint_pred: "0 \<le>s i \<Longrightarrow> sint (i - 1) = sint i - 1" for i :: goint
proof -
  assume "0 \<le>s i"
  then have "0 \<le> sint i" by (simp add: word_sle_eq)
  moreover have "sint i < 2 ^ 63" using sint_lt [of i] by simp
  ultimately have "- (2 ^ 63) \<le> sint i - 1" "sint i - 1 < 2 ^ 63" by linarith+
  then have "signed_take_bit 63 (sint i - 1) = sint i - 1"
    by (simp add: signed_take_bit_int_eq_self)
  then show ?thesis by (simp add: sint_word_ariths)
qed

lemma decrement_nonneg: "0 \<le>s i \<Longrightarrow> i \<noteq> 0 \<Longrightarrow> 0 \<le>s i - 1" for i :: goint
proof -
  assume a: "0 \<le>s i" "i \<noteq> 0"
  then have "sint i \<noteq> 0" by (simp add: signed_eq_0_iff)
  with a show ?thesis using sint_pred [of i] by (simp add: word_sle_eq)
qed

lemma runJob_frame:
  assumes "runJob cfg en w job s = Inr s'"
  shows "Fails (tracker (sched s')) = Fails (tracker (sched s))"
    and "exec (sched s') = exec (sched s)"
    and "InDegrees (dag s') = InDegrees (dag s)"
    and "Jobs (dag s') = Jobs (dag s)"
    and "Relations (dag s') = Relations (dag s)"
    and "r \<noteq> job \<Longrightarrow> heap s' r = heap s r"
    and "Name (heap s' r) = Name (heap s r)"
    and "Type (heap s' r) = Type (heap s r)"
    and "Post (heap s' r) = Post (heap s r)"
    and "Status (heap s' job) = Failed \<or> Status (heap s' job) = Finished \<or>
         Status (heap s' job) = Started"
  using assms
  by (auto simp: runJob_def getExec_def GetStatus_def SetStatus_def tracker_SetStatus_def
      SetBizdate_def SetJobReport_def Exec_Run_def set_Status_def emit_def Let_def
      split: if_splits sum.splits JobStatus.splits prod.splits)


lemma updateFailCount_frame [simp]:
  "heap (updateFailCount job s) = heap s"
  "dag (updateFailCount job s) = dag s"
  "exec (sched (updateFailCount job s)) = exec (sched s)"
  "Statuses (tracker (sched (updateFailCount job s))) = Statuses (tracker (sched s))"
  "events (updateFailCount job s) = events s"
  by (auto simp: updateFailCount_def set_Fails_def Let_def
      split: JobStatus.splits option.splits)

lemma fails_get_updateFailCount:
  "fails_get (updateFailCount job s) n =
     (if n = Name (heap s job) then
        (case Status (heap s job) of
           Failed \<Rightarrow> fails_get s n + 1
         | Finished \<Rightarrow> 0
         | _ \<Rightarrow> fails_get s n)
      else fails_get s n)"
  by (auto simp: updateFailCount_def set_Fails_def fails_get_def Let_def
      split: JobStatus.splits option.splits)

lemma indegree_get_cong:
  "InDegrees (dag s') = InDegrees (dag s) \<Longrightarrow> indegree_get s' n = indegree_get s n"
  by (simp add: indegree_get_def)

lemma fails_get_cong:
  "Fails (tracker (sched s')) = Fails (tracker (sched s)) \<Longrightarrow> fails_get s' n = fails_get s n"
  by (simp add: fails_get_def)

lemma indegree_get_set_InDegrees:
  "indegree_get (set_InDegrees ((InDegrees (dag s))(post \<mapsto> v)) s) n =
     (if n = post then v else indegree_get s n)"
  by (simp add: indegree_get_def)

lemma updateDependences_body_nonneg:
  assumes "\<forall>n. 0 \<le>s indegree_get s n"
  shows "0 \<le>s indegree_get (updateDependences_body cfg job post s) n"
proof (cases "indegree_get s post \<noteq> 0 \<and> decrement_rule cfg s job post")
  case True
  then have "0 \<le>s indegree_get s post - 1"
    using assms by (simp add: decrement_nonneg)
  with True assms show ?thesis
    by (simp only: updateDependences_body_eq indegree_get_set_InDegrees if_True split: if_split)
      simp
next
  case False
  with assms show ?thesis
    by (simp only: updateDependences_body_eq if_False)
qed

lemma updateDependences_states_invariant:
  assumes "\<And>post s. P s \<Longrightarrow> P (updateDependences_body cfg job post s)"
  shows "P s \<Longrightarrow>
    (\<forall>s' \<in> set (updateDependences_states cfg job posts s). P s') \<and>
    P (updateDependences_loop cfg job posts s)"
proof (induction posts arbitrary: s)
  case Nil
  then show ?case by simp
next
  case (Cons post posts)
  have "P (updateDependences_body cfg job post s)"
    using Cons.prems by (rule assms)
  from Cons.IH [OF this] this show ?case by simp
qed

lemma Run_updates_states_invariant:
  assumes fail: "\<And>job s. P s \<Longrightarrow> P (updateFailCount job s)"
    and dep: "\<And>job post s. P s \<Longrightarrow> P (updateDependences_body cfg job post s)"
  shows "P s \<Longrightarrow>
    (\<forall>s' \<in> set (Run_updates_states cfg queue s). P s') \<and> P (Run_updates cfg queue s)"
proof (induction queue arbitrary: s)
  case Nil
  then show ?case by simp
next
  case (Cons job queue)
  let ?s1 = "updateFailCount job s"
  have 1: "P ?s1" using Cons.prems by (rule fail)
  have 2: "(\<forall>s' \<in> set (updateDependences_states cfg job (Post (heap ?s1 job)) ?s1). P s') \<and>
    P (updateDependences_loop cfg job (Post (heap ?s1 job)) ?s1)"
  proof (rule updateDependences_states_invariant)
    show "P (updateDependences_body cfg job post s0)" if "P s0" for post s0
      using that by (rule dep)
    show "P ?s1" by (rule 1)
  qed
  then have "P (updateDependences cfg job ?s1)" by (simp add: updateDependences_def)
  from Cons.IH [OF this] 1 2 show ?case by auto
qed

lemma runQueue_states_invariant:
  assumes "\<And>job s s'. P s \<Longrightarrow> runJob cfg en w job s = Inr s' \<Longrightarrow> P s'"
  shows "P s \<Longrightarrow>
    (\<forall>s' \<in> set (runQueue_states cfg en w queue s). P s') \<and>
    (\<forall>s1. runQueue_workers cfg en w queue s = Inr s1 \<longrightarrow> P s1)"
proof (induction queue arbitrary: s)
  case Nil
  then show ?case by simp
next
  case (Cons job queue)
  show ?case
  proof (cases "runJob cfg en w job s")
    case (Inl p)
    then show ?thesis by simp
  next
    case (Inr s')
    have "P s'" using Cons.prems Inr by (rule assms)
    from Cons.IH [OF this] Inr \<open>P s'\<close> show ?thesis by simp
  qed
qed

lemma Run_loop_states_invariant:
  assumes job: "\<And>w job s s'. P s \<Longrightarrow> runJob cfg en w job s = Inr s' \<Longrightarrow> P s'"
    and fail: "\<And>job s. P s \<Longrightarrow> P (updateFailCount job s)"
    and dep: "\<And>job post s. P s \<Longrightarrow> P (updateDependences_body cfg job post s)"
  shows "P s \<Longrightarrow> \<forall>s' \<in> set (Run_loop_states fuel cfg en w queue s). P s'"
proof (induction fuel arbitrary: w queue s)
  case 0
  then show ?case by simp
next
  case (Suc fuel)
  have rq: "(\<forall>s' \<in> set (runQueue_states cfg en w queue s). P s') \<and>
    (\<forall>s1. runQueue_workers cfg en w queue s = Inr s1 \<longrightarrow> P s1)"
  proof (rule runQueue_states_invariant)
    show "P s'" if "P s0" "runJob cfg en w j s0 = Inr s'" for j s0 s'
      using that by (rule job)
    show "P s" by (rule Suc.prems)
  qed
  have rqs: "\<forall>s' \<in> set (runQueue_states cfg en w queue s). P s'"
    using rq by (rule conjunct1)
  show ?case
  proof (cases "runQueue_workers cfg en w queue s")
    case (Inl p)
    then have "set (Run_loop_states (Suc fuel) cfg en w queue s) \<subseteq>
        insert s (set (runQueue_states cfg en w queue s))"
      by (auto simp: runQueue_def)
    with rqs Suc.prems show ?thesis by blast
  next
    case (Inr s1)
    with rq have "P s1" by blast
    then have up: "(\<forall>s' \<in> set (Run_updates_states cfg queue s1). P s') \<and>
      P (Run_updates cfg queue s1)"
      using fail dep by (intro Run_updates_states_invariant) 
    have ups: "\<forall>s' \<in> set (Run_updates_states cfg queue s1). P s'"
      using up by (rule conjunct1)
    have p2: "P (Run_updates cfg queue s1)"
      using up by (rule conjunct2)
    show ?thesis
    proof (cases "genRunQueue cfg (Run_updates cfg queue s1) (rangeInDegrees en (Suc w))")
      case (Inl p)
      with \<open>runQueue_workers cfg en w queue s = Inr s1\<close>
      have "set (Run_loop_states (Suc fuel) cfg en w queue s) \<subseteq>
          insert s (set (runQueue_states cfg en w queue s) \<union>
            set (Run_updates_states cfg queue s1))"
        by (auto simp: runQueue_def)
      with rqs ups Suc.prems show ?thesis by blast
    next
      case (Inr queue')
      have ih: "\<forall>s' \<in> set (Run_loop_states fuel cfg en (Suc w) queue'
          (Run_updates cfg queue s1)). P s'"
        using p2 by (rule Suc.IH)
      from Inr \<open>runQueue_workers cfg en w queue s = Inr s1\<close>
      have "set (Run_loop_states (Suc fuel) cfg en w queue s) \<subseteq>
          insert s (set (runQueue_states cfg en w queue s) \<union>
            set (Run_updates_states cfg queue s1) \<union>
            set (Run_loop_states fuel cfg en (Suc w) queue' (Run_updates cfg queue s1)))"
        by (auto simp: runQueue_def)
      with rqs ups ih Suc.prems show ?thesis by blast
    qed
  qed
qed

text \<open>
  C6. When no in-degree is negative at the start of a run, none is negative in any state
  the run passes through: after every worker, every \<open>updateFailCount\<close>, every pass of
  the loop of \<open>updateDependences\<close> and at every test of the loop condition, for any
  number of waves.
\<close>

theorem InDegrees_never_negative:
  assumes "\<forall>name. 0 \<le>s indegree_get s name"
  shows "\<forall>s' \<in> set (Run_states fuel cfg en s). \<forall>name. 0 \<le>s indegree_get s' name"
proof -
  let ?P = "\<lambda>s. \<forall>name. 0 \<le>s indegree_get s name"
  have job: "\<And>w job s s'. ?P s \<Longrightarrow> runJob cfg en w job s = Inr s' \<Longrightarrow> ?P s'"
    using indegree_get_cong [OF runJob_frame(3)] by simp
  have fail: "\<And>job s. ?P s \<Longrightarrow> ?P (updateFailCount job s)"
    by (simp add: indegree_get_def)
  have dep: "\<And>job post s. ?P s \<Longrightarrow> ?P (updateDependences_body cfg job post s)"
    by (simp add: updateDependences_body_nonneg)
  have "\<forall>s' \<in> set (Run_loop_states fuel cfg en 0 queue s). ?P s'" for queue
    using job fail dep assms by (rule Run_loop_states_invariant [where P = ?P])
  with assms show ?thesis
    by (simp add: Run_states_def split: option.splits sum.splits) blast
qed

theorem InDegrees_never_negative_witness:
  "(\<forall>name. 0 \<le>s indegree_get linear_state name) \<and>
   list_all (\<lambda>s'. \<forall>name. 0 \<le>s indegree_get s' name)
     (Run_states 4 resume_config (steady_env [''A'', ''B'', ''C'']) linear_state) \<and>
   indegree_get linear_state ''B'' = 1"
proof -
  have h: "\<forall>name. 0 \<le>s indegree_get linear_state name"
    by (simp add: indegree_get_def example_defs word_sle_eq)
  from InDegrees_never_negative [OF h, of 4 resume_config "steady_env [''A'', ''B'', ''C'']"] h
  show ?thesis
    by (simp add: list_all_iff) (simp add: indegree_get_def example_defs)
qed

subsection \<open>Fail counts\<close>

lemma increment_bounded: "n <s m \<Longrightarrow> n + 1 \<le>s m" for n m :: goint
  using sint_succ [of n m] by (simp add: word_sle_eq word_sless_alt)

lemma range_entries_eq:
  "range_entries m ks = map (\<lambda>k. (k, the (m k))) (filter (\<lambda>k. m k \<noteq> None) ks)"
  by (induction ks) (auto split: option.splits)

lemma genRunQueue_loop_eq:
  "genRunQueue_loop cfg s es queue = Inr q \<Longrightarrow>
   q = queue @ map (\<lambda>e. the (Jobs (dag s) (fst e)))
         (filter (\<lambda>e. snd e = 0 \<and>
                      Status (heap s (the (Jobs (dag s) (fst e)))) \<noteq> Finished \<and>
                      Status (heap s (the (Jobs (dag s) (fst e)))) \<noteq> Started \<and>
                      fails_get s (Name (heap s (the (Jobs (dag s) (fst e))))) <s MaxRetry cfg)
            es)"
  by (induction cfg s es queue rule: genRunQueue_loop.induct) (auto split: option.splits)

lemma genRunQueue_distinct_names:
  assumes q: "genRunQueue cfg s ks = Inr q" and ks: "distinct ks"
    and inj: "inj_on (\<lambda>k. Name (heap s (the (Jobs (dag s) k)))) (dom (InDegrees (dag s)))"
  shows "distinct (map (\<lambda>j. Name (heap s j)) q)"
proof -
  let ?nk = "\<lambda>k. Name (heap s (the (Jobs (dag s) k)))"
  from genRunQueue_loop_eq [OF q [unfolded genRunQueue_def]]
  obtain R where "map (\<lambda>j. Name (heap s j)) q =
      map ?nk (filter R (filter (\<lambda>k. InDegrees (dag s) k \<noteq> None) ks))"
    by (simp add: range_entries_eq filter_map comp_def)
  moreover have "inj_on ?nk (set (filter R (filter (\<lambda>k. InDegrees (dag s) k \<noteq> None) ks)))"
    by (rule inj_on_subset [OF inj]) auto
  ultimately show ?thesis
    using ks by (simp add: distinct_map)
qed

lemma genRunQueue_admits:
  assumes "genRunQueue cfg s ks = Inr q" and "job \<in> set q"
  shows "fails_get s (Name (heap s job)) <s MaxRetry cfg"
    and "Status (heap s job) \<noteq> Finished" and "Status (heap s job) \<noteq> Started"
    and "\<exists>k \<in> dom (InDegrees (dag s)). Jobs (dag s) k = Some job"
  using genRunQueue_loop_members [OF assms(1) [unfolded genRunQueue_def], of job] assms(2)
  by (auto simp: set_range_entries)

lemma genRunQueue_returns:
  assumes "well_formed en s"
  shows "\<exists>q. genRunQueue cfg s (rangeInDegrees en w) = Inr q"
proof -
  have "\<forall>e \<in> set (range_entries (InDegrees (dag s)) (rangeInDegrees en w)).
      Jobs (dag s) (fst e) \<noteq> None"
    using assms by (auto simp: well_formed_def set_range_entries dest: domD [OF subsetD, OF _ domI])
  then show ?thesis
    unfolding genRunQueue_def by (rule genRunQueue_loop_returns)
qed

lemma well_formed_range:
  "well_formed en s \<Longrightarrow> distinct (rangeInDegrees en w)"
  "well_formed en s \<Longrightarrow>
     inj_on (\<lambda>k. Name (heap s (the (Jobs (dag s) k)))) (dom (InDegrees (dag s)))"
  by (simp_all add: well_formed_def)

lemma well_formed_cong:
  "well_formed en s \<Longrightarrow> Jobs (dag s') = Jobs (dag s) \<Longrightarrow>
   dom (InDegrees (dag s')) = dom (InDegrees (dag s)) \<Longrightarrow>
   (\<And>r. Name (heap s' r) = Name (heap s r)) \<Longrightarrow> well_formed en s'"
  by (simp add: well_formed_def)

lemma updateDependences_body_dom:
  "dom (InDegrees (dag (updateDependences_body cfg job post s))) = dom (InDegrees (dag s))"
  by (auto simp: updateDependences_body_eq indegree_get_def split: option.splits if_splits)

lemma updateDependences_loop_dom:
  "dom (InDegrees (dag (updateDependences_loop cfg job posts s))) = dom (InDegrees (dag s))"
  by (induction posts arbitrary: s) (simp_all add: updateDependences_body_dom)

lemma Run_updates_frame:
  "heap (Run_updates cfg queue s) = heap s"
  "Jobs (dag (Run_updates cfg queue s)) = Jobs (dag s)"
  "Relations (dag (Run_updates cfg queue s)) = Relations (dag s)"
  "dom (InDegrees (dag (Run_updates cfg queue s))) = dom (InDegrees (dag s))"
  "exec (sched (Run_updates cfg queue s)) = exec (sched s)"
  by (induction queue arbitrary: s;
      simp add: updateDependences_def updateDependences_loop_dom)+

lemma runQueue_workers_frame:
  assumes "runQueue_workers cfg en w queue s = Inr s'"
  shows "Fails (tracker (sched s')) = Fails (tracker (sched s))"
    and "exec (sched s') = exec (sched s)"
    and "InDegrees (dag s') = InDegrees (dag s)"
    and "Jobs (dag s') = Jobs (dag s)"
    and "Relations (dag s') = Relations (dag s)"
    and "r \<notin> set queue \<Longrightarrow> heap s' r = heap s r"
    and "Name (heap s' r) = Name (heap s r)"
    and "Type (heap s' r) = Type (heap s r)"
    and "Post (heap s' r) = Post (heap s r)"
  using assms
proof (induction queue arbitrary: s)
  case Nil
  { case 1 then show ?case by simp }
  { case 2 then show ?case by simp }
  { case 3 then show ?case by simp }
  { case 4 then show ?case by simp }
  { case 5 then show ?case by simp }
  { case 6 then show ?case by simp }
  { case 7 then show ?case by simp }
  { case 8 then show ?case by simp }
  { case 9 then show ?case by simp }
next
  case (Cons job queue)
  { case 1 then show ?case
      by (auto split: sum.splits simp: Cons.IH(1) runJob_frame(1)) }
  { case 2 then show ?case
      by (auto split: sum.splits simp: Cons.IH(2) runJob_frame(2)) }
  { case 3 then show ?case
      by (auto split: sum.splits simp: Cons.IH(3) runJob_frame(3)) }
  { case 4 then show ?case
      by (auto split: sum.splits simp: Cons.IH(4) runJob_frame(4)) }
  { case 5 then show ?case
      by (auto split: sum.splits simp: Cons.IH(5) runJob_frame(5)) }
  { case 6 then show ?case
      by (auto split: sum.splits simp: Cons.IH(6) runJob_frame(6)) }
  { case 7 then show ?case
      by (auto split: sum.splits simp: Cons.IH(7) runJob_frame(7)) }
  { case 8 then show ?case
      by (auto split: sum.splits simp: Cons.IH(8) runJob_frame(8)) }
  { case 9 then show ?case
      by (auto split: sum.splits simp: Cons.IH(9) runJob_frame(9)) }
qed


lemma runQueue_workers_status:
  "runQueue_workers cfg en w queue s = Inr s' \<Longrightarrow> r \<in> set queue \<Longrightarrow>
   Status (heap s' r) = Failed \<or> Status (heap s' r) = Finished \<or> Status (heap s' r) = Started"
proof (induction queue arbitrary: s)
  case Nil
  then show ?case by simp
next
  case (Cons job queue)
  from Cons.prems(1) obtain s1 where
    1: "runJob cfg en w job s = Inr s1" and 2: "runQueue_workers cfg en w queue s1 = Inr s'"
    by (auto split: sum.splits)
  show ?case
  proof (cases "r \<in> set queue")
    case True
    with 2 show ?thesis by (rule Cons.IH)
  next
    case False
    with Cons.prems(2) have "r = job" by simp
    with False runQueue_workers_frame(6) [OF 2] runJob_frame(10) [OF 1]
    show ?thesis by simp
  qed
qed

lemma updateDependences_sched [simp]:
  "sched (updateDependences cfg job s) = sched s"
  "heap (updateDependences cfg job s) = heap s"
  by (simp_all add: updateDependences_def)

lemma updateDependences_states_sched:
  "\<forall>s' \<in> set (updateDependences_states cfg job posts s). sched s' = sched s"
  by (induction posts arbitrary: s) simp_all

lemma Run_updates_states_bounded:
  assumes M: "0 \<le>s MaxRetry cfg"
  shows "\<forall>n. fails_get s n \<le>s MaxRetry cfg \<Longrightarrow>
    distinct (map (\<lambda>j. Name (heap s j)) queue) \<Longrightarrow>
    \<forall>job \<in> set queue. fails_get s (Name (heap s job)) <s MaxRetry cfg \<Longrightarrow>
    (\<forall>s' \<in> set (Run_updates_states cfg queue s). \<forall>n. fails_get s' n \<le>s MaxRetry cfg) \<and>
    (\<forall>n. fails_get (Run_updates cfg queue s) n \<le>s MaxRetry cfg)"
proof (induction queue arbitrary: s)
  case Nil
  then show ?case by simp
next
  case (Cons job queue)
  let ?s1 = "updateFailCount job s"
  let ?s2 = "updateDependences cfg job ?s1"
  from Cons.prems(3) have lt: "fails_get s (Name (heap s job)) <s MaxRetry cfg" by simp
  have b1: "fails_get ?s1 n \<le>s MaxRetry cfg" for n
    using Cons.prems(1) M increment_bounded [OF lt]
    by (simp add: fails_get_updateFailCount split: JobStatus.splits)
  have deps: "\<forall>s' \<in> set (updateDependences_states cfg job (Post (heap ?s1 job)) ?s1).
      \<forall>n. fails_get s' n \<le>s MaxRetry cfg"
    using updateDependences_states_sched [of cfg job "Post (heap ?s1 job)" ?s1] b1
    by (simp add: fails_get_def)
  have b2: "\<forall>n. fails_get ?s2 n \<le>s MaxRetry cfg"
    using b1 by (simp add: fails_get_def)
  have d2: "distinct (map (\<lambda>j. Name (heap ?s2 j)) queue)"
    using Cons.prems(2) by simp
  have other: "fails_get ?s2 (Name (heap ?s2 j)) = fails_get s (Name (heap s j))"
    if "j \<in> set queue" for j
  proof -
    from Cons.prems(2) have "Name (heap s job) \<notin> (\<lambda>j. Name (heap s j)) ` set queue"
      by simp
    with that have "Name (heap s j) \<noteq> Name (heap s job)"
      by (force simp: image_iff)
    then have "fails_get ?s1 (Name (heap s j)) = fails_get s (Name (heap s j))"
      by (simp add: fails_get_updateFailCount)
    then show ?thesis by (simp add: fails_get_def)
  qed
  have l2: "\<forall>j \<in> set queue. fails_get ?s2 (Name (heap ?s2 j)) <s MaxRetry cfg"
    using Cons.prems(3) other by simp
  from Cons.IH [OF b2 d2 l2] b1 deps show ?case
    by (simp add: ball_Un)
qed

lemma Run_loop_states_bounded:
  assumes M: "0 \<le>s MaxRetry cfg"
  shows "well_formed en s \<Longrightarrow> \<forall>n. fails_get s n \<le>s MaxRetry cfg \<Longrightarrow>
    distinct (map (\<lambda>j. Name (heap s j)) queue) \<Longrightarrow>
    \<forall>job \<in> set queue. fails_get s (Name (heap s job)) <s MaxRetry cfg \<Longrightarrow>
    \<forall>s' \<in> set (Run_loop_states fuel cfg en w queue s). \<forall>n. fails_get s' n \<le>s MaxRetry cfg"
proof (induction fuel arbitrary: w queue s)
  case 0
  then show ?case by simp
next
  case (Suc fuel)
  let ?B = "\<lambda>s. \<forall>n. fails_get s n \<le>s MaxRetry cfg"
  have rq: "(\<forall>s' \<in> set (runQueue_states cfg en w queue s). ?B s') \<and>
    (\<forall>s1. runQueue_workers cfg en w queue s = Inr s1 \<longrightarrow> ?B s1)"
  proof (rule runQueue_states_invariant)
    show "?B s'" if "?B s0" "runJob cfg en w j s0 = Inr s'" for j s0 s'
      using that fails_get_cong [OF runJob_frame(1) [OF that(2)]] by simp
    show "?B s" by (rule Suc.prems)
  qed
  then have rqs: "\<forall>s' \<in> set (runQueue_states cfg en w queue s). ?B s'"
    by (rule conjunct1)
  show ?case
  proof (cases "runQueue_workers cfg en w queue s")
    case (Inl p)
    then have "set (Run_loop_states (Suc fuel) cfg en w queue s) \<subseteq>
        insert s (set (runQueue_states cfg en w queue s))"
      by (auto simp: runQueue_def)
    with rqs Suc.prems(2) show ?thesis by blast
  next
    case (Inr s1)
    note w1 = this
    with rq have b1: "?B s1" by blast
    have names: "Name (heap s1 r) = Name (heap s r)" for r
      by (rule runQueue_workers_frame(7) [OF w1])
    have fails: "fails_get s1 n = fails_get s n" for n
      by (rule fails_get_cong [OF runQueue_workers_frame(1) [OF w1]])
    have d1: "distinct (map (\<lambda>j. Name (heap s1 j)) queue)"
      using Suc.prems(3) by (simp add: names)
    have l1: "\<forall>job \<in> set queue. fails_get s1 (Name (heap s1 job)) <s MaxRetry cfg"
      using Suc.prems(4) by (simp add: names fails)
    let ?s2 = "Run_updates cfg queue s1"
    note up = Run_updates_states_bounded [OF M b1 d1 l1]
    then have ups: "\<forall>s' \<in> set (Run_updates_states cfg queue s1). ?B s'"
      and b2: "?B ?s2" by blast+
    have wf2: "well_formed en ?s2"
      using Suc.prems(1)
      by (rule well_formed_cong)
        (simp_all add: Run_updates_frame runQueue_workers_frame(3,4,7) [OF w1])
    show ?thesis
    proof (cases "genRunQueue cfg ?s2 (rangeInDegrees en (Suc w))")
      case (Inl p)
      with w1 have "set (Run_loop_states (Suc fuel) cfg en w queue s) \<subseteq>
          insert s (set (runQueue_states cfg en w queue s) \<union>
            set (Run_updates_states cfg queue s1))"
        by (auto simp: runQueue_def)
      with rqs ups Suc.prems(2) show ?thesis by blast
    next
      case (Inr queue')
      have d': "distinct (map (\<lambda>j. Name (heap ?s2 j)) queue')"
        using Inr well_formed_range [OF wf2] by (rule genRunQueue_distinct_names)
      have l': "\<forall>job \<in> set queue'. fails_get ?s2 (Name (heap ?s2 job)) <s MaxRetry cfg"
        using genRunQueue_admits(1) [OF Inr] by blast
      have ih: "\<forall>s' \<in> set (Run_loop_states fuel cfg en (Suc w) queue' ?s2). ?B s'"
        using wf2 b2 d' l' by (rule Suc.IH)
      from Inr w1
      have "set (Run_loop_states (Suc fuel) cfg en w queue s) \<subseteq>
          insert s (set (runQueue_states cfg en w queue s) \<union>
            set (Run_updates_states cfg queue s1) \<union>
            set (Run_loop_states fuel cfg en (Suc w) queue' ?s2))"
        by (auto simp: runQueue_def)
      with rqs ups ih Suc.prems(2) show ?thesis by blast
    qed
  qed
qed

lemma sless_not_sle: "a <s b \<Longrightarrow> \<not> b \<le>s a" for a b :: goint
  by (simp add: word_sle_eq word_sless_alt)

lemma Run_loop_heads_cases:
  assumes "h \<in> set (Run_loop_heads (Suc fuel) cfg en w queue s)"
  shows "h = (queue, s) \<or>
   (\<exists>s1 queue'. runQueue_workers cfg en w queue s = Inr s1 \<and>
      genRunQueue cfg (Run_updates cfg queue s1) (rangeInDegrees en (Suc w)) = Inr queue' \<and>
      h \<in> set (Run_loop_heads fuel cfg en (Suc w) queue' (Run_updates cfg queue s1)))"
proof (cases "runQueue_workers cfg en w queue s")
  case (Inl p)
  then have eq: "Run_loop_heads (Suc fuel) cfg en w queue s = [(queue, s)]"
    by (simp add: runQueue_def)
  from assms [unfolded eq] show ?thesis by simp
next
  case (Inr s1)
  note w1 = this
  show ?thesis
  proof (cases "genRunQueue cfg (Run_updates cfg queue s1) (rangeInDegrees en (Suc w))")
    case (Inl p)
    with w1 have eq: "Run_loop_heads (Suc fuel) cfg en w queue s = [(queue, s)]"
      by (simp add: runQueue_def)
    from assms [unfolded eq] show ?thesis by simp
  next
    case (Inr queue')
    with w1 have eq: "Run_loop_heads (Suc fuel) cfg en w queue s =
        (queue, s) # (if queue \<noteq> [] then
           Run_loop_heads fuel cfg en (Suc w) queue' (Run_updates cfg queue s1) else [])"
      by (simp add: runQueue_def)
    from assms [unfolded eq]
    have "h = (queue, s) \<or>
        h \<in> set (Run_loop_heads fuel cfg en (Suc w) queue' (Run_updates cfg queue s1))"
      by (cases "queue = []") simp_all
    then show ?thesis
    proof
      assume "h = (queue, s)"
      then show ?thesis by (rule disjI1)
    next
      assume m: "h \<in> set (Run_loop_heads fuel cfg en (Suc w) queue'
          (Run_updates cfg queue s1))"
      have "\<exists>s1 queue'. runQueue_workers cfg en w queue s = Inr s1 \<and>
          genRunQueue cfg (Run_updates cfg queue s1) (rangeInDegrees en (Suc w)) = Inr queue' \<and>
          h \<in> set (Run_loop_heads fuel cfg en (Suc w) queue' (Run_updates cfg queue s1))"
      proof (intro exI conjI)
        show "runQueue_workers cfg en w queue s = Inr s1" by (rule w1)
        show "genRunQueue cfg (Run_updates cfg queue s1) (rangeInDegrees en (Suc w)) =
            Inr queue'" by (rule Inr)
        show "h \<in> set (Run_loop_heads fuel cfg en (Suc w) queue'
            (Run_updates cfg queue s1))" by (rule m)
      qed
      then show ?thesis by (rule disjI2)
    qed
  qed
qed

lemma Run_loop_heads_admitted:
  "\<forall>job \<in> set queue. fails_get s (Name (heap s job)) <s MaxRetry cfg \<Longrightarrow>
   h \<in> set (Run_loop_heads fuel cfg en w queue s) \<Longrightarrow> job \<in> set (fst h) \<Longrightarrow>
   fails_get (snd h) (Name (heap (snd h) job)) <s MaxRetry cfg"
proof (induction fuel arbitrary: w queue s)
  case 0
  then show ?case by simp
next
  case (Suc fuel)
  from Run_loop_heads_cases [OF Suc.prems(2)] show ?case
  proof
    assume "h = (queue, s)"
    with Suc.prems(1,3) show ?thesis by simp
  next
    assume "\<exists>s1 queue'. runQueue_workers cfg en w queue s = Inr s1 \<and>
      genRunQueue cfg (Run_updates cfg queue s1) (rangeInDegrees en (Suc w)) = Inr queue' \<and>
      h \<in> set (Run_loop_heads fuel cfg en (Suc w) queue' (Run_updates cfg queue s1))"
    then obtain s1 queue' where
      g: "genRunQueue cfg (Run_updates cfg queue s1) (rangeInDegrees en (Suc w)) = Inr queue'"
      and h: "h \<in> set (Run_loop_heads fuel cfg en (Suc w) queue' (Run_updates cfg queue s1))"
      by blast
    have "\<forall>job \<in> set queue'. fails_get (Run_updates cfg queue s1)
        (Name (heap (Run_updates cfg queue s1) job)) <s MaxRetry cfg"
      using genRunQueue_admits(1) [OF g] by blast
    from this h Suc.prems(3) show ?thesis by (rule Suc.IH)
  qed
qed

text \<open>
  C4. For a well-formed input with a non-negative MaxRetry and fail counts that do not
  exceed it at the start, no fail count exceeds MaxRetry in any state the run passes
  through, and at every test of the loop condition every job of the freshly generated
  queue, that is every job admitted to the wave, has a fail count below MaxRetry.
\<close>

theorem Fails_never_exceed_MaxRetry:
  assumes wf: "well_formed en s" and M: "0 \<le>s MaxRetry cfg"
    and b: "\<forall>name. fails_get s name \<le>s MaxRetry cfg"
  shows "(\<forall>s' \<in> set (Run_states fuel cfg en s). \<forall>name. fails_get s' name \<le>s MaxRetry cfg) \<and>
    (\<forall>h \<in> set (Run_heads fuel cfg en s). \<forall>job \<in> set (fst h).
       \<not> MaxRetry cfg \<le>s fails_get (snd h) (Name (heap (snd h) job)))"
proof -
  have 1: "\<forall>s' \<in> set (Run_loop_states fuel cfg en 0 queue s).
      \<forall>name. fails_get s' name \<le>s MaxRetry cfg"
    if "genRunQueue cfg s (rangeInDegrees en 0) = Inr queue" for queue
  proof -
    have "distinct (map (\<lambda>j. Name (heap s j)) queue)"
      using that well_formed_range [OF wf] by (rule genRunQueue_distinct_names)
    moreover have "\<forall>job \<in> set queue. fails_get s (Name (heap s job)) <s MaxRetry cfg"
      using genRunQueue_admits(1) [OF that] by blast
    ultimately show ?thesis
      by (rule Run_loop_states_bounded [OF M wf b])
  qed
  have 2: "\<forall>h \<in> set (Run_loop_heads fuel cfg en 0 queue s). \<forall>job \<in> set (fst h).
      fails_get (snd h) (Name (heap (snd h) job)) <s MaxRetry cfg"
    if "genRunQueue cfg s (rangeInDegrees en 0) = Inr queue" for queue
  proof (intro ballI)
    fix h job
    assume "h \<in> set (Run_loop_heads fuel cfg en 0 queue s)" "job \<in> set (fst h)"
    moreover have "\<forall>job \<in> set queue. fails_get s (Name (heap s job)) <s MaxRetry cfg"
      using genRunQueue_admits(1) [OF that] by blast
    ultimately show "fails_get (snd h) (Name (heap (snd h) job)) <s MaxRetry cfg"
      by (rule Run_loop_heads_admitted [rotated])
  qed
  have a: "\<forall>s' \<in> set (Run_states fuel cfg en s). \<forall>name. fails_get s' name \<le>s MaxRetry cfg"
  proof (cases "checkDAG s (rangeJobs en)")
    case (Some err)
    with b show ?thesis by (simp add: Run_states_def)
  next
    case None
    show ?thesis
    proof (cases "genRunQueue cfg s (rangeInDegrees en 0)")
      case (Inl p)
      with None b show ?thesis by (simp add: Run_states_def)
    next
      case (Inr queue)
      with None b 1 [OF Inr] show ?thesis by (simp add: Run_states_def)
    qed
  qed
  have "\<forall>h \<in> set (Run_heads fuel cfg en s). \<forall>job \<in> set (fst h).
      fails_get (snd h) (Name (heap (snd h) job)) <s MaxRetry cfg"
  proof (cases "checkDAG s (rangeJobs en)")
    case (Some err)
    then show ?thesis by (simp add: Run_heads_def)
  next
    case None
    show ?thesis
    proof (cases "genRunQueue cfg s (rangeInDegrees en 0)")
      case (Inl p)
      with None show ?thesis by (simp add: Run_heads_def)
    next
      case (Inr queue)
      with None 2 [OF Inr] show ?thesis by (simp add: Run_heads_def)
    qed
  qed
  then have "\<forall>h \<in> set (Run_heads fuel cfg en s). \<forall>job \<in> set (fst h).
       \<not> MaxRetry cfg \<le>s fails_get (snd h) (Name (heap (snd h) job))"
    by (blast dest: sless_not_sle)
  with a show ?thesis ..
qed


theorem Fails_never_exceed_MaxRetry_witness:
  "well_formed (unresolved_env [''A'', ''B'', ''C'']) linear_state \<and>
   0 \<le>s MaxRetry resume_config \<and>
   (\<forall>name. fails_get linear_state name \<le>s MaxRetry resume_config) \<and>
   list_all (\<lambda>s'. \<forall>name. fails_get s' name \<le>s MaxRetry resume_config)
     (Run_states 4 resume_config (unresolved_env [''A'', ''B'', ''C'']) linear_state) \<and>
   list_all (\<lambda>h. list_all (\<lambda>job.
        \<not> MaxRetry resume_config \<le>s fails_get (snd h) (Name (heap (snd h) job))) (fst h))
     (Run_heads 4 resume_config (unresolved_env [''A'', ''B'', ''C'']) linear_state) \<and>
   map fst (Run_heads 4 resume_config (unresolved_env [''A'', ''B'', ''C'']) linear_state) =
     [[0], [0], [0], []] \<and>
   map (\<lambda>h. fails_get (snd h) ''A'')
     (Run_heads 4 resume_config (unresolved_env [''A'', ''B'', ''C'']) linear_state) =
     [0, 1, 2, 3]"
proof -
  have wf: "well_formed (unresolved_env [''A'', ''B'', ''C'']) linear_state"
    by (simp add: well_formed_def example_defs) auto
  have M: "0 \<le>s MaxRetry resume_config"
    by (simp add: example_defs word_sle_eq)
  have b: "\<forall>name. fails_get linear_state name \<le>s MaxRetry resume_config"
    by (simp add: fails_get_def example_defs word_sle_eq)
  have heads: "map (\<lambda>h. (fst h, fails_get (snd h) ''A''))
     (Run_heads 4 resume_config (unresolved_env [''A'', ''B'', ''C'']) linear_state) =
     [([0], 0), ([0], 1), ([0], 2), ([], 3)]"
    by (simp add: Run_heads_def sched_defs example_defs Let_def numeral_nat
        word_sless_alt word_sle_eq)
  have m1: "map fst (Run_heads 4 resume_config (unresolved_env [''A'', ''B'', ''C''])
      linear_state) = [[0], [0], [0], []]"
    using arg_cong [OF heads, of "map fst"] by (simp add: comp_def)
  have m2: "map (\<lambda>h. fails_get (snd h) ''A'')
      (Run_heads 4 resume_config (unresolved_env [''A'', ''B'', ''C'']) linear_state) =
      [0, 1, 2, 3]"
    using arg_cong [OF heads, of "map snd"] by (simp add: comp_def)
  from Fails_never_exceed_MaxRetry [OF wf M b, of 4] wf M b m1 m2
  show ?thesis
    by (simp add: list_all_iff)
qed

subsection \<open>The end of the wave loop\<close>

lemma fails_get_Run_updates_other:
  "n \<notin> (\<lambda>j. Name (heap s j)) ` set queue \<Longrightarrow>
   fails_get (Run_updates cfg queue s) n = fails_get s n"
proof (induction queue arbitrary: s)
  case Nil
  then show ?case by simp
next
  case (Cons job queue)
  let ?s2 = "updateDependences cfg job (updateFailCount job s)"
  from Cons.prems have 1: "n \<noteq> Name (heap s job)"
    and 2: "n \<notin> (\<lambda>j. Name (heap ?s2 j)) ` set queue"
    by simp_all
  have "fails_get ?s2 n = fails_get (updateFailCount job s) n"
    by (simp add: fails_get_def)
  also have "\<dots> = fails_get s n"
    using 1 by (simp add: fails_get_updateFailCount)
  finally show ?case
    using Cons.IH [OF 2] by simp
qed

lemma fails_get_Run_updates_member:
  "distinct (map (\<lambda>j. Name (heap s j)) queue) \<Longrightarrow> job \<in> set queue \<Longrightarrow>
   fails_get (Run_updates cfg queue s) (Name (heap s job)) =
     (case Status (heap s job) of
        Failed \<Rightarrow> fails_get s (Name (heap s job)) + 1
      | Finished \<Rightarrow> 0
      | _ \<Rightarrow> fails_get s (Name (heap s job)))"
proof (induction queue arbitrary: s)
  case Nil
  then show ?case by simp
next
  case (Cons j queue)
  let ?s1 = "updateFailCount j s"
  let ?s2 = "updateDependences cfg j ?s1"
  have f2: "fails_get ?s2 n = fails_get ?s1 n" for n
    by (simp add: fails_get_def)
  from Cons.prems(1) have nj: "Name (heap s j) \<notin> (\<lambda>j. Name (heap s j)) ` set queue"
    and d: "distinct (map (\<lambda>j. Name (heap s j)) queue)"
    by simp_all
  show ?case
  proof (cases "job \<in> set queue")
    case True
    with nj have ne: "Name (heap s job) \<noteq> Name (heap s j)" by (force simp: image_iff)
    from d have d2: "distinct (map (\<lambda>j. Name (heap ?s2 j)) queue)" by simp
    from Cons.IH [OF d2 True] ne show ?thesis
      by (simp add: f2 fails_get_updateFailCount split: JobStatus.splits)
  next
    case False
    with Cons.prems(2) have eq: "job = j" by simp
    from nj have "Name (heap s j) \<notin> (\<lambda>j. Name (heap ?s2 j)) ` set queue" by simp
    from fails_get_Run_updates_other [OF this, of cfg] eq show ?thesis
      by (simp add: f2 fails_get_updateFailCount split: JobStatus.splits)
  qed
qed

lemma attempts_left_admitted:
  assumes lt: "fails_get s (Name (heap s job)) <s MaxRetry cfg"
    and st: "Status (heap s job) \<noteq> Finished" "Status (heap s job) \<noteq> Started"
    and name: "Name (heap s' job) = Name (heap s job)"
    and st': "Status (heap s' job) = Failed \<or> Status (heap s' job) = Finished \<or>
      Status (heap s' job) = Started"
    and f': "Status (heap s' job) = Failed \<Longrightarrow>
      fails_get s' (Name (heap s job)) = fails_get s (Name (heap s job)) + 1"
  shows "attempts_left cfg s' job < attempts_left cfg s job"
proof (cases "Status (heap s' job) = Failed")
  case True
  from lt have "sint (fails_get s (Name (heap s job))) < sint (MaxRetry cfg)"
    by (simp add: word_sless_alt)
  with True st f' [OF True] sint_succ [OF lt] name show ?thesis
    by (simp add: attempts_left_def)
next
  case False
  with st st' show ?thesis by (auto simp: attempts_left_def)
qed

lemma attempts_left_cong:
  "heap s' job = heap s job \<Longrightarrow>
   fails_get s' (Name (heap s job)) = fails_get s (Name (heap s job)) \<Longrightarrow>
   attempts_left cfg s' job = attempts_left cfg s job"
  by (simp add: attempts_left_def)


lemma wave_decreases:
  assumes wf: "well_formed en s"
    and q: "genRunQueue cfg s (rangeInDegrees en w) = Inr queue"
    and ne: "queue \<noteq> []"
    and w1: "runQueue_workers cfg en w queue s = Inr s1"
  shows "waves_left cfg (Run_updates cfg queue s1) < waves_left cfg s"
proof -
  let ?s2 = "Run_updates cfg queue s1"
  let ?K = "dom (InDegrees (dag s))"
  let ?job = "\<lambda>k. the (Jobs (dag s) k)"
  have fin: "finite ?K"
  proof -
    from wf have "set (rangeInDegrees en 0) = ?K" by (simp add: well_formed_def)
    then show ?thesis by (metis List.finite_set)
  qed
  have dom2: "dom (InDegrees (dag ?s2)) = ?K"
    by (simp add: Run_updates_frame runQueue_workers_frame(3) [OF w1])
  have jobs2: "Jobs (dag ?s2) = Jobs (dag s)"
    by (simp add: Run_updates_frame runQueue_workers_frame(4) [OF w1])
  have names1: "Name (heap s1 r) = Name (heap s r)" for r
    by (rule runQueue_workers_frame(7) [OF w1])
  have heap2: "heap ?s2 = heap s1"
    by (simp add: Run_updates_frame)
  have fails1: "fails_get s1 n = fails_get s n" for n
    by (rule fails_get_cong [OF runQueue_workers_frame(1) [OF w1]])
  have dn: "distinct (map (\<lambda>j. Name (heap s j)) queue)"
    using q well_formed_range [OF wf] by (rule genRunQueue_distinct_names)
  then have dn1: "distinct (map (\<lambda>j. Name (heap s1 j)) queue)"
    by (simp add: names1)
  have member: "attempts_left cfg ?s2 job < attempts_left cfg s job" if "job \<in> set queue" for job
  proof (rule attempts_left_admitted)
    show "fails_get s (Name (heap s job)) <s MaxRetry cfg"
      by (rule genRunQueue_admits(1) [OF q that])
    show "Status (heap s job) \<noteq> Finished"
      by (rule genRunQueue_admits(2) [OF q that])
    show "Status (heap s job) \<noteq> Started"
      by (rule genRunQueue_admits(3) [OF q that])
    show "Name (heap ?s2 job) = Name (heap s job)"
      by (simp add: heap2 names1)
    show "Status (heap ?s2 job) = Failed \<or> Status (heap ?s2 job) = Finished \<or>
        Status (heap ?s2 job) = Started"
      using runQueue_workers_status [OF w1 that] by (simp add: heap2)
    show "fails_get ?s2 (Name (heap s job)) = fails_get s (Name (heap s job)) + 1"
      if "Status (heap ?s2 job) = Failed"
      using fails_get_Run_updates_member [OF dn1 \<open>job \<in> set queue\<close>, of cfg] that
      by (simp add: heap2 names1 fails1)
  qed
  have other: "attempts_left cfg ?s2 (?job k) = attempts_left cfg s (?job k)"
    if k: "k \<in> ?K" and nq: "?job k \<notin> set queue" for k
  proof (rule attempts_left_cong)
    show "heap ?s2 (?job k) = heap s (?job k)"
      using runQueue_workers_frame(6) [OF w1 nq] by (simp add: heap2)
    have "Name (heap s (?job k)) \<notin> (\<lambda>j. Name (heap s1 j)) ` set queue"
    proof
      assume "Name (heap s (?job k)) \<in> (\<lambda>j. Name (heap s1 j)) ` set queue"
      then obtain j where j: "j \<in> set queue"
        and eq: "Name (heap s (?job k)) = Name (heap s j)"
        by (auto simp: names1)
      from genRunQueue_admits(4) [OF q j] obtain k' where
        k': "k' \<in> ?K" "Jobs (dag s) k' = Some j" by blast
      with eq have "Name (heap s (?job k)) = Name (heap s (?job k'))" by simp
      with well_formed_range(2) [OF wf] k k'(1) have "k = k'"
        by (auto dest: inj_onD)
      with k'(2) j nq show False by simp
    qed
    from fails_get_Run_updates_other [OF this, of cfg]
    show "fails_get ?s2 (Name (heap s (?job k))) = fails_get s (Name (heap s (?job k)))"
      by (simp add: fails1)
  qed
  have le: "\<forall>k \<in> ?K. attempts_left cfg ?s2 (?job k) \<le> attempts_left cfg s (?job k)"
  proof
    fix k assume "k \<in> ?K"
    then show "attempts_left cfg ?s2 (?job k) \<le> attempts_left cfg s (?job k)"
      using member [of "?job k"] other [of k] by (cases "?job k \<in> set queue") simp_all
  qed
  have ex: "\<exists>k \<in> ?K. attempts_left cfg ?s2 (?job k) < attempts_left cfg s (?job k)"
  proof -
    from ne obtain j where j: "j \<in> set queue" by (cases queue) auto
    from genRunQueue_admits(4) [OF q j] obtain k where
      "k \<in> ?K" "Jobs (dag s) k = Some j" by blast
    with member [OF j] show ?thesis by force
  qed
  have "(\<Sum>k \<in> ?K. attempts_left cfg ?s2 (?job k)) < (\<Sum>k \<in> ?K. attempts_left cfg s (?job k))"
    using fin le ex by (rule sum_strict_mono_ex1)
  then show ?thesis
    by (simp add: waves_left_def dom2 jobs2)
qed

lemma wave_well_formed:
  assumes wf: "well_formed en s" and w1: "runQueue_workers cfg en w queue s = Inr s1"
  shows "well_formed en (Run_updates cfg queue s1)"
  using wf
  by (rule well_formed_cong)
    (simp_all add: Run_updates_frame runQueue_workers_frame(3,4,7) [OF w1])

lemma Run_loop_terminates:
  "well_formed en s \<Longrightarrow> genRunQueue cfg s (rangeInDegrees en w) = Inr queue \<Longrightarrow>
   \<exists>fuel r. Run_loop fuel cfg en w queue s = Some r"
proof (induction "waves_left cfg s" arbitrary: s w queue rule: less_induct)
  case less
  show ?case
  proof (cases "queue = []")
    case True
    then have "Run_loop (Suc 0) cfg en w queue s = Some (Inr (None, s))" by simp
    then show ?thesis by blast
  next
    case False
    show ?thesis
    proof (cases "runQueue_workers cfg en w queue s")
      case (Inl p)
      with False have "Run_loop (Suc 0) cfg en w queue s = Some (Inl p)"
        by (simp add: runQueue_def)
      then show ?thesis by blast
    next
      case (Inr s1)
      let ?s2 = "Run_updates cfg queue s1"
      have wf2: "well_formed en ?s2"
        using less.prems(1) Inr by (rule wave_well_formed)
      from genRunQueue_returns [OF wf2] obtain queue' where
        g: "genRunQueue cfg ?s2 (rangeInDegrees en (Suc w)) = Inr queue'" by blast
      have "waves_left cfg ?s2 < waves_left cfg s"
        using less.prems False Inr by (rule wave_decreases)
      from less.hyps [OF this wf2 g] obtain fuel r where
        "Run_loop fuel cfg en (Suc w) queue' ?s2 = Some r" by blast
      with False Inr g have "Run_loop (Suc fuel) cfg en w queue s = Some r"
        by (simp add: runQueue_def)
      then show ?thesis by blast
    qed
  qed
qed

lemma Run_loop_ends_at_empty_queue:
  "Run_loop fuel cfg en w queue s = Some (Inr (res, s')) \<Longrightarrow>
   res = None \<and>
   (\<exists>hs. Run_loop_heads fuel cfg en w queue s = hs @ [([], s')] \<and>
      (\<forall>h \<in> set hs. fst h \<noteq> []))"
proof (induction fuel arbitrary: w queue s)
  case 0
  then show ?case by simp
next
  case (Suc fuel)
  show ?case
  proof (cases "queue = []")
    case True
    with Suc.prems have "res = None" "s' = s" by simp_all
    moreover from True have "Run_loop_heads (Suc fuel) cfg en w queue s = [] @ [([], s)]"
      by simp
    ultimately show ?thesis by fastforce
  next
    case False
    note ne = this
    show ?thesis
    proof (cases "runQueue_workers cfg en w queue s")
      case (Inl p)
      with Suc.prems ne show ?thesis by (simp add: runQueue_def)
    next
      case (Inr s1)
      note w1 = this
      let ?s2 = "Run_updates cfg queue s1"
      show ?thesis
      proof (cases "genRunQueue cfg ?s2 (rangeInDegrees en (Suc w))")
        case (Inl p)
        with Suc.prems ne w1 show ?thesis by (simp add: runQueue_def)
      next
        case (Inr queue')
        with Suc.prems ne w1
        have "Run_loop fuel cfg en (Suc w) queue' ?s2 = Some (Inr (res, s'))"
          by (simp add: runQueue_def)
        from Suc.IH [OF this] obtain hs where
          r: "res = None"
          and hs: "Run_loop_heads fuel cfg en (Suc w) queue' ?s2 = hs @ [([], s')]"
          and nn: "\<forall>h \<in> set hs. fst h \<noteq> []"
          by blast
        from ne w1 Inr hs
        have "Run_loop_heads (Suc fuel) cfg en w queue s = ((queue, s) # hs) @ [([], s')]"
          by (simp add: runQueue_def)
        moreover from ne nn have "\<forall>h \<in> set ((queue, s) # hs). fst h \<noteq> []" by simp
        ultimately show ?thesis using r by blast
      qed
    qed
  qed
qed


lemma runQueue_workers_panic:
  "runQueue_workers cfg en w queue s = Inl p \<Longrightarrow>
   \<forall>job \<in> set queue. Type (heap s job) \<in> exec (sched s) \<Longrightarrow>
   p = PanicGetStatus \<and> (\<exists>job \<in> set queue. GetStatus_fails en w job)"
proof (induction queue arbitrary: s)
  case Nil
  then show ?case by simp
next
  case (Cons job rest)
  show ?case
  proof (cases "runJob cfg en w job s")
    case (Inl p')
    with Cons.prems show ?thesis
      by (auto simp: runJob_def getExec_def SetBizdate_def Let_def
          split: if_splits sum.splits JobStatus.splits prod.splits)
  next
    case (Inr s1)
    with Cons.prems(1) have r: "runQueue_workers cfg en w rest s1 = Inl p" by simp
    have "\<forall>j \<in> set rest. Type (heap s1 j) \<in> exec (sched s1)"
      using Cons.prems(2) by (simp add: runJob_frame(2,8) [OF Inr])
    from Cons.IH [OF r this] show ?thesis by auto
  qed
qed

lemma checkDAG_loop_None:
  "checkDAG_loop s es = None \<Longrightarrow> e \<in> set es \<Longrightarrow> Type (heap s (snd e)) \<in> exec (sched s)"
  by (induction s es rule: checkDAG_loop.induct) (auto split: if_splits)

lemma checkDAG_None:
  assumes "checkDAG s ks = None" and "k \<in> set ks" and "Jobs (dag s) k = Some job"
  shows "Type (heap s job) \<in> exec (sched s)"
proof -
  from assms(2,3) have "(k, job) \<in> set (range_entries (Jobs (dag s)) ks)"
    by (simp add: set_range_entries)
  with assms(1) show ?thesis
    unfolding checkDAG_def by (auto dest: checkDAG_loop_None)
qed

lemma Run_loop_panic:
  "Run_loop fuel cfg en w queue s = Some (Inl p) \<Longrightarrow> well_formed en s \<Longrightarrow>
   \<forall>k job. Jobs (dag s) k = Some job \<longrightarrow> Type (heap s job) \<in> exec (sched s) \<Longrightarrow>
   genRunQueue cfg s (rangeInDegrees en w) = Inr queue \<Longrightarrow>
   p = PanicGetStatus \<and> (\<exists>w job. GetStatus_fails en w job)"
proof (induction fuel arbitrary: w queue s)
  case 0
  then show ?case by simp
next
  case (Suc fuel)
  show ?case
  proof (cases "queue = []")
    case True
    with Suc.prems(1) show ?thesis by simp
  next
    case False
    note ne = this
    have typed: "\<forall>job \<in> set queue. Type (heap s job) \<in> exec (sched s)"
    proof
      fix job assume "job \<in> set queue"
      from genRunQueue_admits(4) [OF Suc.prems(4) this] Suc.prems(3)
      show "Type (heap s job) \<in> exec (sched s)" by blast
    qed
    show ?thesis
    proof (cases "runQueue_workers cfg en w queue s")
      case (Inl p')
      with Suc.prems(1) ne have "p' = p" by (simp add: runQueue_def)
      with Inl runQueue_workers_panic [OF _ typed] show ?thesis by blast
    next
      case (Inr s1)
      note w1 = this
      let ?s2 = "Run_updates cfg queue s1"
      have wf2: "well_formed en ?s2"
        using Suc.prems(2) w1 by (rule wave_well_formed)
      have typed2: "\<forall>k job. Jobs (dag ?s2) k = Some job \<longrightarrow>
          Type (heap ?s2 job) \<in> exec (sched ?s2)"
        using Suc.prems(3)
        by (simp add: Run_updates_frame runQueue_workers_frame(2,4,8) [OF w1])
      from genRunQueue_returns [OF wf2] obtain queue' where
        g: "genRunQueue cfg ?s2 (rangeInDegrees en (Suc w)) = Inr queue'" by blast
      with Suc.prems(1) ne w1
      have "Run_loop fuel cfg en (Suc w) queue' ?s2 = Some (Inl p)"
        by (simp add: runQueue_def)
      from Suc.IH [OF this wf2 typed2 g] show ?thesis .
    qed
  qed
qed

lemma Run_loop_fresh_queue:
  "Run_loop fuel cfg en w queue s = Some (Inr (res, s')) \<Longrightarrow>
   genRunQueue cfg s (rangeInDegrees en w) = Inr queue \<Longrightarrow>
   \<exists>w'. genRunQueue cfg s' (rangeInDegrees en w') = Inr []"
proof (induction fuel arbitrary: w queue s)
  case 0
  then show ?case by simp
next
  case (Suc fuel)
  show ?case
  proof (cases "queue = []")
    case True
    with Suc.prems show ?thesis by auto
  next
    case False
    note ne = this
    show ?thesis
    proof (cases "runQueue_workers cfg en w queue s")
      case (Inl p)
      with Suc.prems ne show ?thesis by (simp add: runQueue_def)
    next
      case (Inr s1)
      note w1 = this
      let ?s2 = "Run_updates cfg queue s1"
      show ?thesis
      proof (cases "genRunQueue cfg ?s2 (rangeInDegrees en (Suc w))")
        case (Inl p)
        with Suc.prems ne w1 show ?thesis by (simp add: runQueue_def)
      next
        case (Inr queue')
        with Suc.prems ne w1
        have "Run_loop fuel cfg en (Suc w) queue' ?s2 = Some (Inr (res, s'))"
          by (simp add: runQueue_def)
        from Suc.IH [OF this Inr] show ?thesis .
      qed
    qed
  qed
qed

text \<open>
  C3. On a well-formed DAG that has passed the check of \<open>checkDAG\<close>, \<open>Run\<close> comes to an
  end. Unless \<open>tracker.GetStatus\<close> fails and a worker panics, the loop has then tested
  queues that were all non-empty but the last, the last one is empty and is what
  \<open>genRunQueue\<close> generates in the final state, and \<open>Run\<close> returns nil when \<open>Fails\<close> is
  empty in that state and the error "some job failed" otherwise.
\<close>

theorem Run_ends_at_empty_queue:
  assumes wf: "well_formed en s"
    and jobs: "dom (Jobs (dag s)) \<subseteq> set (rangeJobs en)"
    and pre: "checkDAG s (rangeJobs en) = None"
  shows "\<exists>fuel.
     (\<exists>s' hs.
        Run fatal_exits fuel cfg en s =
          Some (Returns (Inr (if dom (Fails (tracker (sched s'))) = {} then None
                              else Some SomeJobFailed, s'))) \<and>
        Run_heads fuel cfg en s = hs @ [([], s')] \<and>
        (\<forall>h \<in> set hs. fst h \<noteq> []) \<and>
        (\<exists>w. genRunQueue cfg s' (rangeInDegrees en w) = Inr [])) \<or>
     (Run fatal_exits fuel cfg en s = Some (Returns (Inl PanicGetStatus)) \<and>
      (\<exists>w job. GetStatus_fails en w job))"
proof -
  from genRunQueue_returns [OF wf] obtain queue where
    g: "genRunQueue cfg s (rangeInDegrees en 0) = Inr queue" by blast
  from Run_loop_terminates [OF wf g] obtain fuel r where
    r: "Run_loop fuel cfg en 0 queue s = Some r" by blast
  have typed: "\<forall>k job. Jobs (dag s) k = Some job \<longrightarrow> Type (heap s job) \<in> exec (sched s)"
  proof (intro allI impI)
    fix k job assume j: "Jobs (dag s) k = Some job"
    with jobs have "k \<in> set (rangeJobs en)" by blast
    with pre show "Type (heap s job) \<in> exec (sched s)" using j by (rule checkDAG_None)
  qed
  show ?thesis
  proof (cases r)
    case (Inl p)
    with r Run_loop_panic [OF _ wf typed g]
    have p: "p = PanicGetStatus" and f: "\<exists>w job. GetStatus_fails en w job" by blast+
    from r Inl p pre g
    have "Run fatal_exits fuel cfg en s = Some (Returns (Inl PanicGetStatus))"
      by (simp add: Run_def)
    with f show ?thesis by blast
  next
    case (Inr x)
    obtain res s' where x: "x = (res, s')" by (cases x)
    from r Inr x have l: "Run_loop fuel cfg en 0 queue s = Some (Inr (res, s'))" by simp
    from Run_loop_ends_at_empty_queue [OF l] obtain hs where
      res: "res = None"
      and hs: "Run_loop_heads fuel cfg en 0 queue s = hs @ [([], s')]"
      and nn: "\<forall>h \<in> set hs. fst h \<noteq> []" by blast
    from Run_loop_fresh_queue [OF l g] obtain w where
      w: "genRunQueue cfg s' (rangeInDegrees en w) = Inr []" by blast
    from l res pre g
    have 1: "Run fatal_exits fuel cfg en s =
        Some (Returns (Inr (if dom (Fails (tracker (sched s'))) = {} then None
                            else Some SomeJobFailed, s')))"
      by (simp add: Run_def)
    from hs pre g have 2: "Run_heads fuel cfg en s = hs @ [([], s')]"
      by (simp add: Run_heads_def)
    from 1 2 nn w show ?thesis by blast
  qed
qed

theorem Run_ends_at_empty_queue_witness:
  "well_formed (unresolved_env [''A'', ''B'', ''C'']) linear_state \<and>
   dom (Jobs (dag linear_state)) \<subseteq> set (rangeJobs (unresolved_env [''A'', ''B'', ''C''])) \<and>
   checkDAG linear_state (rangeJobs (unresolved_env [''A'', ''B'', ''C''])) = None \<and>
   (\<exists>fuel s' hs.
      Run True fuel resume_config (unresolved_env [''A'', ''B'', ''C'']) linear_state =
        Some (Returns (Inr (if dom (Fails (tracker (sched s'))) = {} then None
                            else Some SomeJobFailed, s'))) \<and>
      Run_heads fuel resume_config (unresolved_env [''A'', ''B'', ''C'']) linear_state =
        hs @ [([], s')] \<and>
      list_all (\<lambda>h. fst h \<noteq> []) hs \<and>
      (\<exists>w. genRunQueue resume_config s'
             (rangeInDegrees (unresolved_env [''A'', ''B'', ''C'']) w) = Inr [])) \<and>
   map_option (map_ending (map_sum id fst))
     (Run True 4 resume_config (unresolved_env [''A'', ''B'', ''C'']) linear_state) =
     Some (Returns (Inr (Some SomeJobFailed))) \<and>
   map_option (map_ending (map_sum id fst))
     (Run True 4 resume_config (steady_env [''A'', ''B'', ''C'']) linear_state) =
     Some (Returns (Inr None))"
proof -
  have wf: "well_formed (unresolved_env [''A'', ''B'', ''C'']) linear_state"
    by (simp add: well_formed_def example_defs) auto
  have jobs: "dom (Jobs (dag linear_state)) \<subseteq> set (rangeJobs (unresolved_env [''A'', ''B'', ''C'']))"
    by (auto simp: example_defs)
  have pre: "checkDAG linear_state (rangeJobs (unresolved_env [''A'', ''B'', ''C''])) = None"
    by (simp add: checkDAG_def example_defs)
  have nf: "\<not> (\<exists>w job. GetStatus_fails (unresolved_env [''A'', ''B'', ''C'']) w job)"
    by (simp add: example_defs)
  have r1: "map_option (map_ending (map_sum id fst))
     (Run True 4 resume_config (unresolved_env [''A'', ''B'', ''C'']) linear_state) =
     Some (Returns (Inr (Some SomeJobFailed)))"
    by (simp add: Run_def sched_defs example_defs Let_def numeral_nat
        word_sless_alt word_sle_eq)
  have r2: "map_option (map_ending (map_sum id fst))
     (Run True 4 resume_config (steady_env [''A'', ''B'', ''C'']) linear_state) =
     Some (Returns (Inr None))"
    by (simp add: Run_def sched_defs example_defs Let_def numeral_nat
        word_sless_alt word_sle_eq)
  from Run_ends_at_empty_queue [OF wf jobs pre, of True resume_config] nf wf jobs pre r1 r2
  show ?thesis
    by (simp add: list_all_iff)
qed

subsection \<open>A resumed run\<close>






section \<open>Properties of CmdExec\<close>

lemma fst_log_Fatal:
  "fst (log_Fatal fatal_exits msg rest) = (if fatal_exits then ProcessExits else fst rest)"
  by (simp add: log_Fatal_def)

lemma fst_scan_stdout: "fst (scan_stdout jobname ls rest) = fst rest"
  by (induction ls) (simp_all add: log_Info_def)

lemma fst_scan_stderr:
  "fst (scan_stderr fatal_exits jobname ls rest) =
     (if fatal_exits \<and> list_ex (\<lambda>l. length l \<noteq> 0) ls then ProcessExits else fst rest)"
  by (induction ls) (auto simp: fst_log_Fatal)

lemma fst_scanner_Err:
  "fst (scanner_Err fatal_exits err rest) =
     (if fatal_exits \<and> err \<noteq> None then ProcessExits else fst rest)"
  by (cases err) (simp_all add: scanner_Err_def fst_log_Fatal)

text \<open>
  C8 (as the claim states it) fails: for a child that exits with status 3, \<open>CmdExec\<close>
  returns the status as its integer result and a nil error, whatever \<open>log.Fatal\<close> does.
\<close>

theorem nonzero_exit_returns_nil_error:
  "CmdExec True ''job'' (exited_child [] (WaitExitError (Some 3))) =
     (Returns (3, None), [LogInfo ''<job> done'']) \<and>
   CmdExec False ''job'' (exited_child [] (WaitExitError (Some 3))) =
     (Returns (3, None), [LogInfo ''<job> done''])"
  by (simp add: CmdExec_def exited_child_def scanner_Err_def log_Info_def tagged_def)

text \<open>
  C8, amended. For a child that was spawned (both pipes and the start succeeded):
  when \<open>log.Fatal\<close> ends the process and the child wrote a non-empty line to stderr or
  a scanner failed, \<open>CmdExec\<close> does not return. Otherwise it returns \<open>(0, nil)\<close> when
  \<open>Wait\<close> reports success and \<open>(status, nil)\<close> when the child exited with a status: the
  exit code is the integer result and the error is nil. When the exit status cannot
  be read it returns 0 and an error; when \<open>Wait\<close> fails otherwise it calls
  \<open>log.Fatalf\<close>, and returns 0 and the error if that comes back.
\<close>

theorem CmdExec_exit_status:
  assumes "StdoutPipe_error c = None" and "StderrPipe_error c = None"
    and "Start_error c = None"
  shows "fst (CmdExec fatal_exits jobname c) =
     (if fatal_exits \<and> Fatal_before_Wait c then ProcessExits
      else (case Wait_result c of
              WaitNil \<Rightarrow> Returns (0, None)
            | WaitExitError (Some status) \<Rightarrow> Returns (status, None)
            | WaitExitError None \<Rightarrow> Returns (0, Some GetExitStatusFail)
            | WaitOtherError e \<Rightarrow>
                if fatal_exits then ProcessExits else Returns (0, Some (OSError e))))"
  using assms
  by (simp add: CmdExec_def Fatal_before_Wait_def fst_scan_stderr fst_scanner_Err
      fst_scan_stdout fst_log_Fatal split: wait_result.splits option.splits)

theorem CmdExec_exit_status_witness:
  "StdoutPipe_error (exited_child [''warning''] (WaitExitError (Some 1))) = None \<and>
   StderrPipe_error (exited_child [''warning''] (WaitExitError (Some 1))) = None \<and>
   Start_error (exited_child [''warning''] (WaitExitError (Some 1))) = None \<and>
   fst (CmdExec True ''job'' (exited_child [] WaitNil)) = Returns (0, None) \<and>
   fst (CmdExec True ''job'' (exited_child [] (WaitExitError (Some 1)))) = Returns (1, None) \<and>
   fst (CmdExec False ''job'' (exited_child [''warning''] (WaitExitError (Some 1)))) =
     Returns (1, None) \<and>
   fst (CmdExec True ''job'' (exited_child [''warning''] (WaitExitError (Some 1)))) =
     ProcessExits"
proof -
  have h: "StdoutPipe_error (exited_child errs r) = None"
    "StderrPipe_error (exited_child errs r) = None"
    "Start_error (exited_child errs r) = None" for errs r
    by (simp_all add: exited_child_def)
  from CmdExec_exit_status [OF h [of "[]" WaitNil], of True "''job''"]
    CmdExec_exit_status [OF h [of "[]" "WaitExitError (Some 1)"], of True "''job''"]
    CmdExec_exit_status [OF h [of "[''warning'']" "WaitExitError (Some 1)"], of False "''job''"]
    CmdExec_exit_status [OF h [of "[''warning'']" "WaitExitError (Some 1)"], of True "''job''"]
    h
  show ?thesis by (simp add: exited_child_def Fatal_before_Wait_def)
qed

section \<open>Properties of the parser\<close>

lemma job_evaluation_fails_panics:
  "job_evaluation_fails pe entry workdir pre err \<Longrightarrow>
   parseJobFromFile pe entry workdir pre = Panic err"
  by (auto simp: job_evaluation_fails_def parseJobFromFile_def Let_def
      split: option.splits outcome.splits)

lemma parseDo_append:
  "parseDo pe workdir pre stepVar (before @ rest) acc =
     (case parseDo pe workdir pre stepVar before acc of
        Return jobs \<Rightarrow> parseDo pe workdir pre stepVar rest jobs
      | Panic m \<Rightarrow> Panic m
      | Exit \<Rightarrow> Exit)"
  by (induction before arbitrary: acc) (auto split: outcome.splits sum.splits)

lemma parseDep_append:
  "parseDep n pe workdir pre stepVar (before @ rest) acc =
     (case parseDep n pe workdir pre stepVar before acc of
        None \<Rightarrow> None
      | Some (Return steps) \<Rightarrow> parseDep n pe workdir pre stepVar rest steps
      | Some (Panic m) \<Rightarrow> Some (Panic m)
      | Some Exit \<Rightarrow> Some Exit)"
  by (induction before arbitrary: acc) (auto split: outcome.splits sum.splits option.splits)

lemma parseDep_Suc:
  assumes step: "\<And>entry workdir pre r.
      parseStepFromFile n pe entry workdir pre = Some r \<Longrightarrow>
      parseStepFromFile (Suc n) pe entry workdir pre = Some r"
  shows "parseDep n pe workdir pre stepVar ds acc = Some r \<Longrightarrow>
    parseDep (Suc n) pe workdir pre stepVar ds acc = Some r"
proof (induction ds arbitrary: acc)
  case Nil
  then show ?case by simp
next
  case (Cons d ds)
  show ?case
  proof (cases "arrayToMap (dep_Var d) CHR ''=''")
    case (Return localVar0)
    note am = this
    show ?thesis
    proof (cases "evalMap pe [pre, Some stepVar, Some localVar0]")
      case (Inl err)
      with Cons.prems am show ?thesis by simp
    next
      case (Inr localVar)
      note ev = this
      from Cons.prems am ev obtain r' where
        r': "parseStepFromFile n pe (dep_Res d) workdir (Some localVar) = Some r'"
        by (cases "parseStepFromFile n pe (dep_Res d) workdir (Some localVar)") auto
      note r'' = step [OF r']
      show ?thesis
      proof (cases r')
        case (Return st)
        with Cons.prems am ev r'
        have "parseDep n pe workdir pre stepVar ds (acc @ [st]) = Some r" by simp
        then have "parseDep (Suc n) pe workdir pre stepVar ds (acc @ [st]) = Some r"
          by (rule Cons.IH)
        with am ev r'' Return show ?thesis by simp
      next
        case (Panic m)
        with Cons.prems am ev r' r'' show ?thesis by simp
      next
        case Exit
        with Cons.prems am ev r' r'' show ?thesis by simp
      qed
    qed
  next
    case (Panic m)
    with Cons.prems show ?thesis by simp
  next
    case Exit
    with Cons.prems show ?thesis by simp
  qed
qed

lemma parseStepFromFile_Suc:
  "parseStepFromFile n pe entry workdir pre = Some r \<Longrightarrow>
   parseStepFromFile (Suc n) pe entry workdir pre = Some r"
proof (induction n arbitrary: entry workdir pre r)
  case 0
  then show ?case by simp
next
  case (Suc n)
  have dep: "parseDep (Suc n) pe workdir pre stepVar ds acc = Some r'"
    if "parseDep n pe workdir pre stepVar ds acc = Some r'" for stepVar ds acc r'
    using Suc.IH that by (rule parseDep_Suc)
  from Suc.prems show ?case
    by (auto split: option.splits outcome.splits sum.splits dest: dep
        simp del: parseStepFromFile.simps(2)
        simp add: parseStepFromFile.simps(2) [of n] parseStepFromFile.simps(2) [of "Suc n"])
qed

lemma parseStepFromFile_mono:
  "parseStepFromFile n pe entry workdir pre = Some r \<Longrightarrow> n \<le> m \<Longrightarrow>
   parseStepFromFile m pe entry workdir pre = Some r"
proof (induction m)
  case 0
  then show ?case by simp
next
  case (Suc m)
  show ?case
  proof (cases "n = Suc m")
    case True
    with Suc.prems show ?thesis by simp
  next
    case False
    with Suc.prems have "parseStepFromFile m pe entry workdir pre = Some r"
      by (intro Suc.IH) simp_all
    then show ?thesis by (rule parseStepFromFile_Suc)
  qed
qed

lemma parseDep_mono:
  "parseDep n pe workdir pre stepVar ds acc = Some r \<Longrightarrow> n \<le> m \<Longrightarrow>
   parseDep m pe workdir pre stepVar ds acc = Some r"
proof (induction m)
  case 0
  then show ?case by simp
next
  case (Suc m)
  show ?case
  proof (cases "n = Suc m")
    case True
    with Suc.prems show ?thesis by simp
  next
    case False
    with Suc.prems have "parseDep m pe workdir pre stepVar ds acc = Some r"
      by (intro Suc.IH) simp_all
    then show ?thesis
      by (rule parseDep_Suc [rotated]) (rule parseStepFromFile_Suc)
  qed
qed

lemma opened_step_failed:
  "opened_step pe entry workdir pre = Some (s, Inl err) \<Longrightarrow>
   parseStepFromFile (Suc n) pe entry workdir pre = Some (Panic err)"
  by (auto simp: opened_step_def split: option.splits outcome.splits)

lemma opened_step_evaluated:
  "opened_step pe entry workdir pre = Some (s, Inr stepVar) \<Longrightarrow>
   parseStepFromFile (Suc n) pe entry workdir pre =
     (case parseDo pe workdir pre stepVar (step_Do s) [] of
        Exit \<Rightarrow> Some Exit
      | Panic m \<Rightarrow> Some (Panic m)
      | Return dos \<Rightarrow>
          (case parseDep n pe workdir pre stepVar (step_Dep s) [] of
             None \<Rightarrow> None
           | Some Exit \<Rightarrow> Some Exit
           | Some (Panic m) \<Rightarrow> Some (Panic m)
           | Some (Return deps) \<Rightarrow>
               Some (Return (Some (Step (step_Name s) stepVar deps dos)))))"
  by (auto simp: opened_step_def split: option.splits outcome.splits)

lemma step_evaluation_fails_panics:
  "step_evaluation_fails pe entry workdir pre err \<Longrightarrow>
   \<exists>n. \<forall>m \<ge> n. parseStepFromFile m pe entry workdir pre = Some (Panic err)"
proof (induction rule: step_evaluation_fails.induct)
  case (step_var entry workdir pre s err)
  have "parseStepFromFile m pe entry workdir pre = Some (Panic err)" if "1 \<le> m" for m
    using that opened_step_failed [OF step_var] by (cases m) simp_all
  then show ?case by blast
next
  case (do_var entry workdir pre s stepVar before d after jobs err)
  have "parseDo pe workdir pre stepVar (step_Do s) [] = Panic err"
    using do_var(2-4)
    by (auto simp: parseDo_append local_evaluation_def split: outcome.splits)
  then have "parseStepFromFile m pe entry workdir pre = Some (Panic err)" if "1 \<le> m" for m
    using that opened_step_evaluated [OF do_var(1)] by (cases m) simp_all
  then show ?case by blast
next
  case (job_var entry workdir pre s stepVar before d after jobs localVar err)
  have "parseDo pe workdir pre stepVar (step_Do s) [] = Panic err"
    using job_var(2-4) job_evaluation_fails_panics [OF job_var(5)]
    by (auto simp: parseDo_append local_evaluation_def split: outcome.splits)
  then have "parseStepFromFile m pe entry workdir pre = Some (Panic err)" if "1 \<le> m" for m
    using that opened_step_evaluated [OF job_var(1)] by (cases m) simp_all
  then show ?case by blast
next
  case (dep_var entry workdir pre s stepVar jobs before d after n steps err)
  have "parseStepFromFile m pe entry workdir pre = Some (Panic err)" if "Suc n \<le> m" for m
  proof -
    from that obtain k where m: "m = Suc k" and k: "n \<le> k" by (cases m) simp_all
    from parseDep_mono [OF dep_var(4) k] dep_var(3,5)
    have "parseDep k pe workdir pre stepVar (step_Dep s) [] = Some (Panic err)"
      by (auto simp: parseDep_append local_evaluation_def split: outcome.splits)
    with opened_step_evaluated [OF dep_var(1)] dep_var(2) m show ?thesis by simp
  qed
  then show ?case by blast
next
  case (dep_step entry workdir pre s stepVar jobs before d after n steps localVar err)
  from dep_step.IH obtain n' where
    n': "\<forall>m \<ge> n'. parseStepFromFile m pe (dep_Res d) workdir (Some localVar) = Some (Panic err)"
    by blast
  have "parseStepFromFile m pe entry workdir pre = Some (Panic err)"
    if "Suc (max n n') \<le> m" for m
  proof -
    from that obtain k where m: "m = Suc k" and k: "n \<le> k" "n' \<le> k" by (cases m) simp_all
    from n' k(2)
    have "parseStepFromFile k pe (dep_Res d) workdir (Some localVar) = Some (Panic err)"
      by blast
    with parseDep_mono [OF dep_step(4) k(1)] dep_step(3,5)
    have "parseDep k pe workdir pre stepVar (step_Dep s) [] = Some (Panic err)"
      by (auto simp: parseDep_append local_evaluation_def split: outcome.splits)
    with opened_step_evaluated [OF dep_step(1)] dep_step(2) m show ?thesis by simp
  qed
  then show ?case by blast
qed

text \<open>
  C7 (as the claim states it) fails: when the evaluation of the step's variables fails,
  \<open>parseStepFromFile\<close> does not return at all, it panics with the calculator's error.
\<close>

theorem step_var_failure_panics:
  "parseStepFromFile 2 example_files ''daily.xml'' ''/work'' None =
     Some (Panic ''unknown function: yesterday'')"
  by (simp add: example_files_def arrayToMap_def evalMap_def numeral_2_eq_2)

text \<open>
  C7, amended. On every input on which an evaluation of variables fails during
  parsing, at the scope of the step's variables, of the local variables of a do or dep,
  or of a job's variables, in the file parsed or in a step file it depends on, the parse
  ends in a panic that carries the calculator's error: \<open>parseJobFromFile\<close> panics, and
  \<open>parseStepFromFile\<close> panics for every bound on the depth from some bound on. It
  returns neither a step or job nor an error value.
\<close>

theorem evaluation_failure_panics:
  "(job_evaluation_fails pe entry workdir pre err \<longrightarrow>
      parseJobFromFile pe entry workdir pre = Panic err) \<and>
   (step_evaluation_fails pe entry workdir pre err \<longrightarrow>
      (\<exists>n. \<forall>m \<ge> n. parseStepFromFile m pe entry workdir pre = Some (Panic err)))"
  using job_evaluation_fails_panics step_evaluation_fails_panics by blast

theorem evaluation_failure_panics_witness:
  "job_evaluation_fails example_files ''load.xml'' ''/work'' None ''unknown function: yesterday'' \<and>
   parseJobFromFile example_files ''load.xml'' ''/work'' None =
     Panic ''unknown function: yesterday'' \<and>
   step_evaluation_fails example_files ''flow.xml'' ''/work'' None
     ''unknown function: yesterday'' \<and>
   step_evaluation_fails example_files ''weekly.xml'' ''/work'' None
     ''unknown function: yesterday'' \<and>
   (\<exists>n. \<forall>m \<ge> n. parseStepFromFile m example_files ''flow.xml'' ''/work'' None =
      Some (Panic ''unknown function: yesterday'')) \<and>
   (\<exists>n. \<forall>m \<ge> n. parseStepFromFile m example_files ''weekly.xml'' ''/work'' None =
      Some (Panic ''unknown function: yesterday''))"
proof -
  let ?e = "''unknown function: yesterday''"
  let ?flow = "\<lparr>step_Name = ''flow'', step_Var = [''region=eu''], step_Dep = [],
    step_Do = [\<lparr>do_Res = ''load.xml'', do_Arg = [''table=t1'']\<rparr>]\<rparr>"
  let ?daily = "\<lparr>step_Name = ''daily'', step_Var = [''day=yesterday()''],
    step_Dep = [], step_Do = []\<rparr>"
  let ?weekly = "\<lparr>step_Name = ''weekly'', step_Var = [],
    step_Dep = [\<lparr>dep_Res = ''daily.xml'', dep_Var = [''region=us'']\<rparr>], step_Do = []\<rparr>"
  have job: "job_evaluation_fails example_files ''load.xml'' ''/work'' pre ?e" for pre
    by (cases pre) (simp_all add: job_evaluation_fails_def example_files_def arrayToMap_def
        evalMap_def)
  have flow: "step_evaluation_fails example_files ''flow.xml'' ''/work'' None ?e"
  proof (rule step_evaluation_fails.job_var)
    show "opened_step example_files ''flow.xml'' ''/work'' None =
        Some (?flow, Inr [''region'' \<mapsto> ''eu''])"
      by (simp add: opened_step_def example_files_def arrayToMap_def evalMap_def)
    show "step_Do ?flow = [] @ \<lparr>do_Res = ''load.xml'', do_Arg = [''table=t1'']\<rparr> # []"
      by simp
    show "parseDo example_files ''/work'' None [''region'' \<mapsto> ''eu''] [] [] = Return []"
      by simp
    show "local_evaluation example_files None [''region'' \<mapsto> ''eu'']
        (do_Arg \<lparr>do_Res = ''load.xml'', do_Arg = [''table=t1'']\<rparr>) =
        Some (Inr [''region'' \<mapsto> ''eu'', ''table'' \<mapsto> ''t1''])"
      by (simp add: local_evaluation_def example_files_def arrayToMap_def evalMap_def)
    show "job_evaluation_fails example_files
        (do_Res \<lparr>do_Res = ''load.xml'', do_Arg = [''table=t1'']\<rparr>) ''/work''
        (Some [''region'' \<mapsto> ''eu'', ''table'' \<mapsto> ''t1'']) ?e"
      using job by simp
  qed
  have daily: "step_evaluation_fails example_files ''daily.xml'' ''/work''
      (Some [''region'' \<mapsto> ''us'']) ?e"
  proof (rule step_evaluation_fails.step_var)
    show "opened_step example_files ''daily.xml'' ''/work'' (Some [''region'' \<mapsto> ''us'']) =
        Some (?daily, Inl ?e)"
      by (simp add: opened_step_def example_files_def arrayToMap_def evalMap_def)
  qed
  have weekly: "step_evaluation_fails example_files ''weekly.xml'' ''/work'' None ?e"
  proof (rule step_evaluation_fails.dep_step)
    show "opened_step example_files ''weekly.xml'' ''/work'' None = Some (?weekly, Inr Map.empty)"
      by (simp add: opened_step_def example_files_def arrayToMap_def evalMap_def)
    show "parseDo example_files ''/work'' None Map.empty (step_Do ?weekly) [] = Return []"
      by simp
    show "step_Dep ?weekly = [] @ \<lparr>dep_Res = ''daily.xml'', dep_Var = [''region=us'']\<rparr> # []"
      by simp
    show "parseDep 0 example_files ''/work'' None Map.empty [] [] = Some (Return [])"
      by simp
    show "local_evaluation example_files None Map.empty
        (dep_Var \<lparr>dep_Res = ''daily.xml'', dep_Var = [''region=us'']\<rparr>) =
        Some (Inr [''region'' \<mapsto> ''us''])"
      by (simp add: local_evaluation_def example_files_def arrayToMap_def evalMap_def)
    show "step_evaluation_fails example_files
        (dep_Res \<lparr>dep_Res = ''daily.xml'', dep_Var = [''region=us'']\<rparr>) ''/work''
        (Some [''region'' \<mapsto> ''us'']) ?e"
      using daily by simp
  qed
  from evaluation_failure_panics [of example_files "''load.xml''" "''/work''" None ?e]
    evaluation_failure_panics [of example_files "''flow.xml''" "''/work''" None ?e]
    evaluation_failure_panics [of example_files "''weekly.xml''" "''/work''" None ?e]
    job [of None] flow weekly
  show ?thesis by blast
qed

end
